theory Spec2Isabelle
  imports Main "HOL-Library.Monad_Syntax"
begin

section \<open>The node store\<close>

text \<open>
  A \<open>Node*\<close> is an address or the null pointer; the free store is a partial map from
  addresses to nodes. Every operation returns an \<open>option\<close>: \<open>None\<close> stands for a
  run that dereferences a null or dangling pointer, or that never leaves one of its loops.

  \<open>Node::value\<close> points to a pair that the node alone owns, so the pair is kept
  inside the node (field \<open>val\<close>); the members \<open>root_\<close>, \<open>b_iter_\<close> and \<open>size_\<close> of the
  map are the fields \<open>root\<close>, \<open>b_iter\<close> and \<open>size_n\<close>. \<open>size_type\<close> is modelled by \<open>nat\<close>; an unsigned subtraction or
  decrement that goes below zero wraps modulo \<open>2 ^ 64\<close>. The comparator object has no
  state and is passed to the operations as the relation \<open>cmp\<close>.
\<close>

type_synonym addr = nat

record ('k, 'v) node =
  val :: "'k \<times> 'v"
  left :: "addr option"
  right :: "addr option"
  parent :: "addr option"
  level :: nat

type_synonym ('k, 'v) store = "addr \<Rightarrow> ('k, 'v) node option"

record ('k, 'v) map_t =
  heap :: "('k, 'v) store"
  root :: "addr option"
  b_iter :: "addr option"
  size_n :: nat

definition size_sub :: "nat \<Rightarrow> nat \<Rightarrow> nat" where
  "size_sub a b = (if b \<le> a then a - b else a + 2 ^ 64 - b)"

definition size_dec :: "nat \<Rightarrow> nat" where
  "size_dec a = size_sub a 1"

definition set_left :: "('k, 'v) store \<Rightarrow> addr \<Rightarrow> addr option \<Rightarrow> ('k, 'v) store option" where
  "set_left h a p = (case h a of None \<Rightarrow> None | Some n \<Rightarrow> Some (h(a \<mapsto> n\<lparr>left := p\<rparr>)))"

definition set_right :: "('k, 'v) store \<Rightarrow> addr \<Rightarrow> addr option \<Rightarrow> ('k, 'v) store option" where
  "set_right h a p = (case h a of None \<Rightarrow> None | Some n \<Rightarrow> Some (h(a \<mapsto> n\<lparr>right := p\<rparr>)))"

definition set_parent :: "('k, 'v) store \<Rightarrow> addr \<Rightarrow> addr option \<Rightarrow> ('k, 'v) store option" where
  "set_parent h a p = (case h a of None \<Rightarrow> None | Some n \<Rightarrow> Some (h(a \<mapsto> n\<lparr>parent := p\<rparr>)))"

definition set_level :: "('k, 'v) store \<Rightarrow> addr \<Rightarrow> nat \<Rightarrow> ('k, 'v) store option" where
  "set_level h a l = (case h a of None \<Rightarrow> None | Some n \<Rightarrow> Some (h(a \<mapsto> n\<lparr>level := l\<rparr>)))"

definition set_value :: "('k, 'v) store \<Rightarrow> addr \<Rightarrow> 'k \<times> 'v \<Rightarrow> ('k, 'v) store option" where
  "set_value h a x = (case h a of None \<Rightarrow> None | Some n \<Rightarrow> Some (h(a \<mapsto> n\<lparr>val := x\<rparr>)))"

text \<open>\<open>if (q != nullptr) q->parent = p;\<close>\<close>

definition set_parent_opt :: "('k, 'v) store \<Rightarrow> addr option \<Rightarrow> addr option \<Rightarrow> ('k, 'v) store option" where
  "set_parent_opt h q p = (case q of None \<Rightarrow> Some h | Some b \<Rightarrow> set_parent h b p)"

text \<open>
  The tail shared by \<open>skew\<close> and \<open>split\<close>: \<open>up\<close> takes the place of \<open>node\<close> below the
  parent of \<open>node\<close>, and \<open>node\<close> becomes a child of \<open>up\<close>.
\<close>

definition reattach :: "('k, 'v) store \<Rightarrow> addr \<Rightarrow> addr \<Rightarrow> ('k, 'v) store option" where
  "reattach h node up = do {
     n \<leftarrow> h node;
     h \<leftarrow> set_parent h up (parent n);
     h \<leftarrow> (case parent n of
            None \<Rightarrow> Some h
          | Some p \<Rightarrow> do {
              pn \<leftarrow> h p;
              if left pn = Some node then set_left h p (Some up) else set_right h p (Some up)
            });
     set_parent h node (Some up)
   }"

section \<open>The balancing engine\<close>

definition skew :: "('k, 'v) map_t \<Rightarrow> addr \<Rightarrow> (('k, 'v) map_t \<times> addr) option" where
  "skew s node = do {
     n \<leftarrow> heap s node;
     case left n of
       None \<Rightarrow> Some (s, node)
     | Some left_node \<Rightarrow> do {
         ln \<leftarrow> heap s left_node;
         if level n \<noteq> level ln then Some (s, node)
         else do {
           h \<leftarrow> set_left (heap s) node (right ln);
           h \<leftarrow> set_parent_opt h (right ln) (Some node);
           h \<leftarrow> set_right h left_node (Some node);
           h \<leftarrow> reattach h node left_node;
           Some (s\<lparr>heap := h,
                   root := (if root s = Some node then Some left_node else root s)\<rparr>,
                 left_node)
         }
       }
   }"

definition split :: "('k, 'v) map_t \<Rightarrow> addr \<Rightarrow> (('k, 'v) map_t \<times> addr) option" where
  "split s node = do {
     n \<leftarrow> heap s node;
     case right n of
       None \<Rightarrow> Some (s, node)
     | Some right_node \<Rightarrow> do {
         rn \<leftarrow> heap s right_node;
         case right rn of
           None \<Rightarrow> Some (s, node)
         | Some rr \<Rightarrow> do {
             rrn \<leftarrow> heap s rr;
             if level n \<noteq> level rrn then Some (s, node)
             else do {
               h \<leftarrow> set_right (heap s) node (left rn);
               h \<leftarrow> set_parent_opt h (left rn) (Some node);
               h \<leftarrow> set_left h right_node (Some node);
               h \<leftarrow> reattach h node right_node;
               rn' \<leftarrow> h right_node;
               h \<leftarrow> set_level h right_node (level rn' + 1);
               Some (s\<lparr>heap := h,
                       root := (if root s = Some node then Some right_node else root s)\<rparr>,
                     right_node)
             }
           }
       }
   }"

section \<open>Lookup\<close>

partial_function (option) findNode_loop ::
  "('k \<Rightarrow> 'k \<Rightarrow> bool) \<Rightarrow> ('k, 'v) store \<Rightarrow> 'k \<Rightarrow> addr option \<Rightarrow> addr option option" where
  "findNode_loop cmp h search_key node =
     (case node of
        None \<Rightarrow> Some None
      | Some a \<Rightarrow> do {
          n \<leftarrow> h a;
          if \<not> cmp (fst (val n)) search_key \<and> \<not> cmp search_key (fst (val n))
          then Some (Some a)
          else if cmp search_key (fst (val n))
          then findNode_loop cmp h search_key (left n)
          else findNode_loop cmp h search_key (right n)
        })"

declare findNode_loop.simps [code]

definition findNode ::
  "('k \<Rightarrow> 'k \<Rightarrow> bool) \<Rightarrow> ('k, 'v) map_t \<Rightarrow> 'k \<Rightarrow> addr option option" where
  "findNode cmp s search_key = findNode_loop cmp (heap s) search_key (root s)"

text \<open>The loop of \<open>findParent\<close> returns the pair \<open>(parent, node)\<close> it ends with.\<close>

partial_function (option) findParent_loop ::
  "('k \<Rightarrow> 'k \<Rightarrow> bool) \<Rightarrow> ('k, 'v) store \<Rightarrow> 'k \<Rightarrow> addr option \<Rightarrow> addr option
     \<Rightarrow> (addr option \<times> addr option) option" where
  "findParent_loop cmp h search_key par node =
     (case node of
        None \<Rightarrow> Some (par, None)
      | Some a \<Rightarrow> do {
          n \<leftarrow> h a;
          if \<not> cmp (fst (val n)) search_key \<and> \<not> cmp search_key (fst (val n))
          then Some (Some a, Some a)
          else if cmp search_key (fst (val n))
          then findParent_loop cmp h search_key (Some a) (left n)
          else findParent_loop cmp h search_key (Some a) (right n)
        })"

declare findParent_loop.simps [code]

definition findParent ::
  "('k \<Rightarrow> 'k \<Rightarrow> bool) \<Rightarrow> ('k, 'v) map_t \<Rightarrow> 'k \<Rightarrow> addr option option" where
  "findParent cmp s search_key = do {
     (par, node) \<leftarrow> findParent_loop cmp (heap s) search_key None (root s);
     if node \<noteq> None \<or> size_n s = 0 then Some node else Some par
   }"

text \<open>\<open>find\<close> wraps the node in an iterator; dereferencing the iterator reads the pair.\<close>

definition find_map ::
  "('k \<Rightarrow> 'k \<Rightarrow> bool) \<Rightarrow> ('k, 'v) map_t \<Rightarrow> 'k \<Rightarrow> addr option option" where
  "find_map cmp s search_key = findNode cmp s search_key"

definition deref :: "('k, 'v) map_t \<Rightarrow> addr option \<Rightarrow> ('k \<times> 'v) option" where
  "deref s it = (case it of None \<Rightarrow> None | Some a \<Rightarrow> map_option val (heap s a))"

definition contains :: "('k \<Rightarrow> 'k \<Rightarrow> bool) \<Rightarrow> ('k, 'v) map_t \<Rightarrow> 'k \<Rightarrow> bool option" where
  "contains cmp s k = map_option (\<lambda>p. p \<noteq> None) (findNode cmp s k)"

section \<open>Traversal\<close>

partial_function (option) leftmost :: "('k, 'v) store \<Rightarrow> addr \<Rightarrow> addr option" where
  "leftmost h a = do {
     n \<leftarrow> h a;
     case left n of None \<Rightarrow> Some a | Some l \<Rightarrow> leftmost h l
   }"

declare leftmost.simps [code]

partial_function (option) next_climb ::
  "('k, 'v) store \<Rightarrow> addr \<Rightarrow> addr option \<Rightarrow> addr option option" where
  "next_climb h node par =
     (case par of
        None \<Rightarrow> Some None
      | Some p \<Rightarrow> do {
          pn \<leftarrow> h p;
          if right pn = Some node then next_climb h p (parent pn) else Some (Some p)
        })"

declare next_climb.simps [code]

definition next_node :: "('k, 'v) store \<Rightarrow> addr \<Rightarrow> addr option option" where
  "next_node h node = do {
     n \<leftarrow> h node;
     case right n of
       Some r \<Rightarrow> map_option Some (leftmost h r)
     | None \<Rightarrow> next_climb h node (parent n)
   }"

definition beginNode :: "('k, 'v) store \<Rightarrow> addr option \<Rightarrow> addr option option" where
  "beginNode h node = (case node of None \<Rightarrow> Some None | Some a \<Rightarrow> map_option Some (leftmost h a))"

definition begin_map :: "('k, 'v) map_t \<Rightarrow> addr option" where
  "begin_map s = b_iter s"

text \<open>\<open>e_iter_\<close> is the null iterator from construction on; no operation assigns it.\<close>

definition end_map :: "('k, 'v) map_t \<Rightarrow> addr option" where
  "end_map s = None"

definition getSize :: "('k, 'v) map_t \<Rightarrow> nat" where
  "getSize s = size_n s"

definition empty_map :: "('k, 'v) map_t \<Rightarrow> bool" where
  "empty_map s = (size_n s = 0)"

section \<open>Insertion\<close>

partial_function (option) insert_loop ::
  "('k, 'v) map_t \<Rightarrow> addr option \<Rightarrow> nat \<Rightarrow> ('k, 'v) map_t option" where
  "insert_loop s rebalance_node unchanged_nodes =
     (case rebalance_node of
        None \<Rightarrow> Some s
      | Some a \<Rightarrow>
          if \<not> unchanged_nodes < 3 then Some s
          else do {
            (s1, r1) \<leftarrow> skew s a;
            (s2, is_tree_changed) \<leftarrow>
               (if a \<noteq> r1 then Some (s1, True)
                else do { (s2, r2) \<leftarrow> split s1 a; Some (s2, a \<noteq> r2) });
            n \<leftarrow> heap s2 a;
            insert_loop s2 (parent n) (if is_tree_changed then 0 else unchanged_nodes + 1)
          })"

declare insert_loop.simps [code]

text \<open>
  \<open>new_node\<close> is the address that \<open>new Node\<close> returns; the allocator never returns an
  address that is still live.
\<close>

definition insert_map ::
  "('k \<Rightarrow> 'k \<Rightarrow> bool) \<Rightarrow> ('k, 'v) map_t \<Rightarrow> addr \<Rightarrow> 'k \<times> 'v
     \<Rightarrow> (('k, 'v) map_t \<times> addr \<times> bool) option" where
  "insert_map cmp s new_node v = do {
     par \<leftarrow> findParent cmp s (fst v);
     present \<leftarrow> (case par of
                   None \<Rightarrow> Some False
                 | Some p \<Rightarrow> do { pn \<leftarrow> heap s p; Some (fst (val pn) = fst v) });
     if present then map_option (\<lambda>p. (s, p, False)) par
     else if heap s new_node \<noteq> None then None
     else do {
       let h = (heap s)(new_node \<mapsto>
                 \<lparr>val = v, left = None, right = None, parent = par, level = 1\<rparr>);
       let s = s\<lparr>heap := h, size_n := size_n s + 1\<rparr>;
       case par of
         None \<Rightarrow> Some (s\<lparr>root := Some new_node, b_iter := Some new_node\<rparr>, new_node, True)
       | Some p \<Rightarrow> do {
           b \<leftarrow> b_iter s;
           bn \<leftarrow> h b;
           let s = (if cmp (fst v) (fst (val bn)) then s\<lparr>b_iter := Some new_node\<rparr> else s);
           pn \<leftarrow> h p;
           (h, rebalance_node) \<leftarrow>
              (if cmp (fst v) (fst (val pn))
               then do { h \<leftarrow> set_left h p (Some new_node); Some (h, Some p) }
               else do { h \<leftarrow> set_right h p (Some new_node); Some (h, parent pn) });
           s \<leftarrow> insert_loop (s\<lparr>heap := h\<rparr>) rebalance_node 0;
           Some (s, new_node, True)
         }
     }
   }"

section \<open>Deletion\<close>

definition trivialNodeErase ::
  "('k, 'v) map_t \<Rightarrow> addr \<Rightarrow> addr option \<Rightarrow> (('k, 'v) map_t \<times> addr option) option" where
  "trivialNodeErase s node_to_erase child = do {
     n \<leftarrow> heap s node_to_erase;
     h \<leftarrow> set_parent_opt (heap s) child (parent n);
     (h, rt, par) \<leftarrow>
        (if root s \<noteq> Some node_to_erase
         then do {
           p \<leftarrow> parent n;
           pn \<leftarrow> h p;
           h \<leftarrow> (if left pn = Some node_to_erase then set_left h p child else set_right h p child);
           Some (h, root s, Some p)
         }
         else Some (h, child, None));
     b \<leftarrow> (if b_iter s = Some node_to_erase then next_node h node_to_erase else Some (b_iter s));
     Some (s\<lparr>heap := h(node_to_erase := None), root := rt, b_iter := b,
             size_n := size_dec (size_n s)\<rparr>, par)
   }"

definition decreaseNodeLevel :: "('k, 'v) store \<Rightarrow> addr \<Rightarrow> ('k, 'v) store option" where
  "decreaseNodeLevel h node = do {
     n \<leftarrow> h node;
     left_diff \<leftarrow> (case left n of
                     Some l \<Rightarrow> do { ln \<leftarrow> h l; Some (size_sub (level n) (level ln)) }
                   | None \<Rightarrow> Some (level n));
     right_diff \<leftarrow> (case right n of
                      Some r \<Rightarrow> do { rn \<leftarrow> h r; Some (size_sub (level n) (level rn)) }
                    | None \<Rightarrow> Some (level n));
     if 1 < left_diff \<or> 1 < right_diff
     then do {
       h \<leftarrow> (case right n of
              None \<Rightarrow> Some h
            | Some r \<Rightarrow> do {
                rn \<leftarrow> h r;
                if level rn = level n then set_level h r (size_dec (level rn)) else Some h
              });
       n \<leftarrow> h node;
       set_level h node (size_dec (level n))
     }
     else Some h
   }"

text \<open>The body of the upward walk of \<open>erase\<close> once the level of the node has changed.\<close>

definition erase_fix :: "('k, 'v) map_t \<Rightarrow> addr \<Rightarrow> (('k, 'v) map_t \<times> addr) option" where
  "erase_fix s rebalance_node = do {
     (s, rebalance_node) \<leftarrow> skew s rebalance_node;
     n \<leftarrow> heap s rebalance_node;
     s \<leftarrow> (case right n of
            None \<Rightarrow> Some s
          | Some r \<Rightarrow> do {
              (s, _) \<leftarrow> skew s r;
              n \<leftarrow> heap s rebalance_node;
              r \<leftarrow> right n;
              rn \<leftarrow> heap s r;
              case right rn of
                None \<Rightarrow> Some s
              | Some rr \<Rightarrow> map_option fst (skew s rr)
            });
     (s, rebalance_node) \<leftarrow> split s rebalance_node;
     n \<leftarrow> heap s rebalance_node;
     s \<leftarrow> (case right n of None \<Rightarrow> Some s | Some r \<Rightarrow> map_option fst (split s r));
     Some (s, rebalance_node)
   }"

partial_function (option) erase_loop ::
  "('k, 'v) map_t \<Rightarrow> addr option \<Rightarrow> ('k, 'v) map_t option" where
  "erase_loop s rebalance_node =
     (case rebalance_node of
        None \<Rightarrow> Some s
      | Some a \<Rightarrow> do {
          n \<leftarrow> heap s a;
          h \<leftarrow> decreaseNodeLevel (heap s) a;
          n' \<leftarrow> h a;
          if level n \<noteq> level n'
          then do {
            (s, a) \<leftarrow> erase_fix (s\<lparr>heap := h\<rparr>) a;
            n \<leftarrow> heap s a;
            erase_loop s (parent n)
          }
          else Some (s\<lparr>heap := h\<rparr>)
        })"

declare erase_loop.simps [code]

definition erase ::
  "('k \<Rightarrow> 'k \<Rightarrow> bool) \<Rightarrow> ('k, 'v) map_t \<Rightarrow> 'k \<Rightarrow> ('k, 'v) map_t option" where
  "erase cmp s erased_key =
     (if root s = None then Some s
      else do {
        cur \<leftarrow> findNode cmp s erased_key;
        case cur of
          None \<Rightarrow> Some s
        | Some current_node \<Rightarrow> do {
            n \<leftarrow> heap s current_node;
            (s, rebalance_node) \<leftarrow>
               (if left n = None \<and> right n = None then trivialNodeErase s current_node None
                else if left n \<noteq> None \<and> right n = None
                then trivialNodeErase s current_node (left n)
                else if left n = None \<and> right n \<noteq> None
                then trivialNodeErase s current_node (right n)
                else do {
                  nx \<leftarrow> next_node (heap s) current_node;
                  next_nd \<leftarrow> nx;
                  nn \<leftarrow> heap s next_nd;
                  let right_child = right nn;
                  rebalance_node \<leftarrow> parent nn;
                  h \<leftarrow> set_parent_opt (heap s) right_child (Some rebalance_node);
                  rbn \<leftarrow> h rebalance_node;
                  h \<leftarrow> (if left rbn = Some next_nd then set_left h rebalance_node right_child
                         else set_right h rebalance_node right_child);
                  cn \<leftarrow> h current_node;
                  nn \<leftarrow> h next_nd;
                  h \<leftarrow> set_value h current_node (val nn);
                  h \<leftarrow> set_value h next_nd (val cn);
                  cn \<leftarrow> h current_node;
                  nn \<leftarrow> h next_nd;
                  h \<leftarrow> set_value h current_node (fst (val cn), snd (val nn));
                  Some (s\<lparr>heap := h(next_nd := None), size_n := size_dec (size_n s)\<rparr>,
                        Some rebalance_node)
                });
            erase_loop s rebalance_node
          }
      })"

section \<open>Construction\<close>

definition Map_new :: "('k, 'v) map_t" where
  "Map_new = \<lparr>heap = Map.empty, root = None, b_iter = None, size_n = 0\<rparr>"

text \<open>
  The store is read as a binary tree whose nodes carry the address, the key and the level of a node of the store. A position in the tree is a subtree together with the list of the frames above it, each frame holding an ancestor and its other subtree.
\<close>

section \<open>The tree behind the store\<close>

datatype 'k atree = Tip | Br "'k atree" addr 'k nat "'k atree"

fun addrs :: "'k atree \<Rightarrow> addr list" where
  "addrs Tip = []"
| "addrs (Br l a k lv r) = addrs l @ a # addrs r"

fun keys :: "'k atree \<Rightarrow> 'k list" where
  "keys Tip = []"
| "keys (Br l a k lv r) = keys l @ k # keys r"

fun ptr :: "'k atree \<Rightarrow> addr option" where
  "ptr Tip = None"
| "ptr (Br l a k lv r) = Some a"

fun lvl :: "'k atree \<Rightarrow> nat" where
  "lvl Tip = 0"
| "lvl (Br l a k lv r) = lv"

fun rlvl :: "'k atree \<Rightarrow> nat" where
  "rlvl Tip = 0"
| "rlvl (Br l a k lv r) = lvl r"

fun rep :: "('k, 'v) store \<Rightarrow> addr option \<Rightarrow> 'k atree \<Rightarrow> bool" where
  "rep h pp Tip = True"
| "rep h pp (Br l a k lv r) =
     (case h a of
        None \<Rightarrow> False
      | Some n \<Rightarrow> fst (val n) = k \<and> level n = lv \<and> parent n = pp \<and>
                 left n = ptr l \<and> right n = ptr r \<and> rep h (Some a) l \<and> rep h (Some a) r)"

datatype 'k frame = LF addr 'k nat "'k atree" | RF "'k atree" addr 'k nat

fun plug :: "'k atree \<Rightarrow> 'k frame list \<Rightarrow> 'k atree" where
  "plug t [] = t"
| "plug t (LF a k lv r # fs) = plug (Br t a k lv r) fs"
| "plug t (RF l a k lv # fs) = plug (Br l a k lv t) fs"

fun faddr :: "'k frame \<Rightarrow> addr" where
  "faddr (LF a k lv r) = a"
| "faddr (RF l a k lv) = a"

fun pptr :: "'k frame list \<Rightarrow> addr option" where
  "pptr [] = None"
| "pptr (f # fs) = Some (faddr f)"

fun faddrs :: "'k frame list \<Rightarrow> addr set" where
  "faddrs [] = {}"
| "faddrs (LF a k lv r # fs) = insert a (set (addrs r) \<union> faddrs fs)"
| "faddrs (RF l a k lv # fs) = insert a (set (addrs l) \<union> faddrs fs)"

fun prep :: "('k, 'v) store \<Rightarrow> addr option \<Rightarrow> 'k frame list \<Rightarrow> bool" where
  "prep h p [] = True"
| "prep h p (LF a k lv r # fs) =
     (case h a of
        None \<Rightarrow> False
      | Some n \<Rightarrow> fst (val n) = k \<and> level n = lv \<and> parent n = pptr fs \<and>
                 left n = p \<and> right n = ptr r \<and> rep h (Some a) r \<and> prep h (Some a) fs)"
| "prep h p (RF l a k lv # fs) =
     (case h a of
        None \<Rightarrow> False
      | Some n \<Rightarrow> fst (val n) = k \<and> level n = lv \<and> parent n = pptr fs \<and>
                 left n = ptr l \<and> right n = p \<and> rep h (Some a) l \<and> prep h (Some a) fs)"

definition tree_rep :: "('k, 'v) map_t \<Rightarrow> 'k atree \<Rightarrow> bool" where
  "tree_rep s t = (rep (heap s) None t \<and> root s = ptr t \<and> distinct (addrs t))"

lemma rep_plug: "rep h None (plug t fs) = (rep h (pptr fs) t \<and> prep h (ptr t) fs)"
  by (induction t fs rule: plug.induct) (auto split: option.splits)

lemma set_addrs_plug: "set (addrs (plug t fs)) = set (addrs t) \<union> faddrs fs"
  by (induction t fs rule: plug.induct) auto

lemma distinct_plug:
  "distinct (addrs (plug t fs)) \<Longrightarrow> distinct (addrs t) \<and> set (addrs t) \<inter> faddrs fs = {}"
  by (induction t fs rule: plug.induct) auto

lemma rep_cong: "(\<And>a. a \<in> set (addrs t) \<Longrightarrow> h' a = h a) \<Longrightarrow> rep h' pp t = rep h pp t"
  by (induction t arbitrary: pp) (auto split: option.splits)

lemma prep_cong: "(\<And>a. a \<in> faddrs fs \<Longrightarrow> h' a = h a) \<Longrightarrow> prep h' p fs = prep h p fs"
proof (induction fs arbitrary: p)
  case Nil
  then show ?case by simp
next
  case (Cons f fs)
  show ?case
  proof (cases f)
    case (LF a k lv r)
    have "rep h' (Some a) r = rep h (Some a) r"
      using Cons.prems LF by (intro rep_cong) auto
    moreover have "prep h' (Some a) fs = prep h (Some a) fs"
      using Cons.prems LF by (intro Cons.IH) auto
    moreover have "h' a = h a" using Cons.prems LF by auto
    ultimately show ?thesis using LF by (simp split: option.splits)
  next
    case (RF l a k lv)
    have "rep h' (Some a) l = rep h (Some a) l"
      using Cons.prems RF by (intro rep_cong) auto
    moreover have "prep h' (Some a) fs = prep h (Some a) fs"
      using Cons.prems RF by (intro Cons.IH) auto
    moreover have "h' a = h a" using Cons.prems RF by auto
    ultimately show ?thesis using RF by (simp split: option.splits)
  qed
qed

lemma rep_upd [simp]: "a \<notin> set (addrs t) \<Longrightarrow> rep (h(a := x)) pp t = rep h pp t"
  by (rule rep_cong) auto

lemma prep_upd [simp]: "a \<notin> faddrs fs \<Longrightarrow> prep (h(a := x)) p fs = prep h p fs"
  by (rule prep_cong) auto

fun fskew :: "'k atree \<Rightarrow> 'k atree" where
  "fskew (Br (Br ll la lk llv lr) a k lv r) =
     (if lv = llv then Br ll la lk llv (Br lr a k lv r) else Br (Br ll la lk llv lr) a k lv r)"
| "fskew t = t"

fun fsplit :: "'k atree \<Rightarrow> 'k atree" where
  "fsplit (Br l a k lv (Br rl ra rk rlv (Br x b bk blv y))) =
     (if lv = blv then Br (Br l a k lv rl) ra rk (rlv + 1) (Br x b bk blv y)
      else Br l a k lv (Br rl ra rk rlv (Br x b bk blv y)))"
| "fsplit t = t"

definition same_vals :: "('k, 'v) map_t \<Rightarrow> ('k, 'v) map_t \<Rightarrow> bool" where
  "same_vals s s' = (size_n s' = size_n s \<and> b_iter s' = b_iter s \<and>
     (\<forall>x. map_option val (heap s' x) = map_option val (heap s x)))"

lemma ptr_plug: "ptr (plug t fs) = (if fs = [] then ptr t else Some (faddr (last fs)))"
  by (induction t fs rule: plug.induct) auto

lemma last_faddrs: "fs \<noteq> [] \<Longrightarrow> faddr (last fs) \<in> faddrs fs"
  by (induction fs rule: faddrs.induct) auto

lemma root_plug:
  assumes "distinct (addrs (plug (Br l a k lv r) fs))"
  shows "(ptr (plug (Br l a k lv r) fs) = Some a) = (fs = [])"
  using distinct_plug [OF assms] last_faddrs [of fs] by (auto simp: ptr_plug)

lemma root_plug_upd:
  "fs \<noteq> [] \<Longrightarrow> ptr (plug t' fs) = ptr (plug t fs)"
  by (simp add: ptr_plug)

fun fdistinct :: "'k frame list \<Rightarrow> bool" where
  "fdistinct [] = True"
| "fdistinct (LF a k lv r # fs) =
     (distinct (addrs r) \<and> a \<notin> set (addrs r) \<and> a \<notin> faddrs fs \<and>
      set (addrs r) \<inter> faddrs fs = {} \<and> fdistinct fs)"
| "fdistinct (RF l a k lv # fs) =
     (distinct (addrs l) \<and> a \<notin> set (addrs l) \<and> a \<notin> faddrs fs \<and>
      set (addrs l) \<inter> faddrs fs = {} \<and> fdistinct fs)"

lemma distinct_plug_iff:
  "distinct (addrs (plug t fs)) =
     (distinct (addrs t) \<and> set (addrs t) \<inter> faddrs fs = {} \<and> fdistinct fs)"
proof (induction t fs rule: plug.induct)
  case (1 t)
  then show ?case by simp
next
  case (2 t a k lv r fs)
  show ?case unfolding plug.simps 2 by (simp add: Int_Un_distrib2) blast
next
  case (3 t l a k lv fs)
  show ?case unfolding plug.simps 3 by (simp add: Int_Un_distrib2) blast
qed

lemma ptr_in_addrs: "ptr t = Some a \<Longrightarrow> a \<in> set (addrs t)"
  by (cases t) auto

lemma prep_child:
  assumes "prep h (Some a) fs" "pptr fs = Some p" "h p = Some pn" "fdistinct fs"
    "\<And>x. x \<in> faddrs fs \<Longrightarrow> x \<noteq> p \<Longrightarrow> h' x = h x"
    "h' p = Some (if left pn = Some a then pn\<lparr>left := Some b\<rparr> else pn\<lparr>right := Some b\<rparr>)"
    "a \<notin> faddrs fs"
  shows "prep h' (Some b) fs"
proof (cases fs)
  case Nil
  then show ?thesis by simp
next
  case (Cons f fs')
  show ?thesis
  proof (cases f)
    case (LF c k lv r)
    with Cons assms(2) have c: "c = p" by simp
    have "rep h' (Some p) r = rep h (Some p) r"
      using assms(4,5) Cons LF c by (intro rep_cong) auto
    moreover have "prep h' (Some p) fs' = prep h (Some p) fs'"
      using assms(4,5) Cons LF c by (intro prep_cong) auto
    ultimately show ?thesis using assms(1,3,6,7) Cons LF c
      by (auto split: option.splits dest: ptr_in_addrs)
  next
    case (RF l c k lv)
    with Cons assms(2) have c: "c = p" by simp
    have "rep h' (Some p) l = rep h (Some p) l"
      using assms(4,5) Cons RF c by (intro rep_cong) auto
    moreover have "prep h' (Some p) fs' = prep h (Some p) fs'"
      using assms(4,5) Cons RF c by (intro prep_cong) auto
    ultimately show ?thesis using assms(1,3,6,7) Cons RF c
      by (auto split: option.splits dest: ptr_in_addrs)
  qed
qed

section \<open>Skew and split as rotations of the tree\<close>

lemma rep_root_parent:
  assumes "rep h pp t" "distinct (addrs t)"
    "\<And>x. x \<in> set (addrs t) \<Longrightarrow> ptr t \<noteq> Some x \<Longrightarrow> h' x = h x"
    "\<And>b n. ptr t = Some b \<Longrightarrow> h b = Some n \<Longrightarrow> h' b = Some (n\<lparr>parent := pp'\<rparr>)"
  shows "rep h' pp' t"
proof (cases t)
  case Tip
  then show ?thesis by simp
next
  case (Br l b k lv r)
  obtain n where n: "h b = Some n" using assms(1) Br by (auto split: option.splits)
  have "rep h' (Some b) l = rep h (Some b) l"
    using assms(2,3) Br by (intro rep_cong) auto
  moreover have "rep h' (Some b) r = rep h (Some b) r"
    using assms(2,3) Br by (intro rep_cong) auto
  ultimately show ?thesis
    using assms(1) assms(4) [of b n] Br n by simp
qed

lemma skew_noop:
  assumes "tree_rep s (plug (Br l a k lv r) fs)" "l = Tip \<or> lvl l \<noteq> lv"
  shows "skew s a = Some (s, a)"
proof -
  have r: "rep (heap s) (pptr fs) (Br l a k lv r)"
    using assms(1) by (simp add: tree_rep_def rep_plug)
  then obtain n where n: "heap s a = Some n" by (auto split: option.splits)
  show ?thesis
  proof (cases l)
    case Tip
    then show ?thesis using r n by (simp add: skew_def)
  next
    case (Br ll la lk llv lr)
    then obtain ln where "heap s la = Some ln" "level ln = llv"
      using r n by (auto split: option.splits)
    then show ?thesis using r n Br assms(2) by (simp add: skew_def)
  qed
qed

lemma skew_rot:
  assumes "tree_rep s (plug (Br (Br ll la lk lv lr) a k lv r) fs)"
  shows "\<exists>s'. skew s a = Some (s', la) \<and>
              tree_rep s' (plug (Br ll la lk lv (Br lr a k lv r)) fs) \<and> same_vals s s'"
proof -
  let ?h = "heap s"
  let ?t = "Br (Br ll la lk lv lr) a k lv r"
  have r: "rep ?h (pptr fs) ?t" and p: "prep ?h (Some a) fs"
    and d: "distinct (addrs ?t)" "set (addrs ?t) \<inter> faddrs fs = {}" "fdistinct fs"
    and rt: "root s = ptr (plug ?t fs)"
    using assms by (simp_all add: tree_rep_def rep_plug distinct_plug_iff)
  obtain n where n: "?h a = Some n" "fst (val n) = k" "level n = lv" "parent n = pptr fs"
    "left n = Some la" "right n = ptr r"
    using r by (auto split: option.splits)
  obtain ln where ln: "?h la = Some ln" "fst (val ln) = lk" "level ln = lv" "parent ln = Some a"
    "left ln = ptr ll" "right ln = ptr lr"
    using r n by (auto split: option.splits)
  have rs: "rep ?h (Some la) ll" "rep ?h (Some la) lr" "rep ?h (Some a) r"
    using r n ln by auto
  have ne: "a \<noteq> la" using d by auto
  define h1 where "h1 = ?h(a \<mapsto> n\<lparr>left := ptr lr\<rparr>)"
  define h2 where "h2 = (case lr of Tip \<Rightarrow> h1
      | Br x b bk blv y \<Rightarrow> (case h1 b of None \<Rightarrow> h1 | Some bn \<Rightarrow> h1(b \<mapsto> bn\<lparr>parent := Some a\<rparr>)))"
  define h3 where "h3 = h2(la \<mapsto> ln\<lparr>right := Some a\<rparr>)"
  define h4 where "h4 = h3(la \<mapsto> ln\<lparr>right := Some a, parent := pptr fs\<rparr>)"
  define h5 where "h5 = (case pptr fs of None \<Rightarrow> h4
      | Some q \<Rightarrow> (case h4 q of None \<Rightarrow> h4
          | Some qn \<Rightarrow> if left qn = Some a then h4(q \<mapsto> qn\<lparr>left := Some la\<rparr>)
                       else h4(q \<mapsto> qn\<lparr>right := Some la\<rparr>)))"
  define h6 where "h6 = h5(a \<mapsto> n\<lparr>left := ptr lr, parent := Some la\<rparr>)"
  define s' where "s' = s\<lparr>heap := h6, root := (if root s = Some a then Some la else root s)\<rparr>"
  have s1: "set_left ?h a (ptr lr) = Some h1"
    using n by (simp add: set_left_def h1_def)
  have s2: "set_parent_opt h1 (ptr lr) (Some a) = Some h2"
    using rs(2) d ne by (cases lr) (auto simp: set_parent_opt_def set_parent_def h2_def h1_def split: option.splits)
  have h2la: "h2 la = Some ln" and h2a: "h2 a = Some (n\<lparr>left := ptr lr\<rparr>)"
    using d ne ln by (cases lr; auto simp: h2_def h1_def split: option.splits)+
  have s3: "set_right h2 la (Some a) = Some h3"
    using h2la by (simp add: set_right_def h3_def)
  have h3a: "h3 a = Some (n\<lparr>left := ptr lr\<rparr>)"
    using h2a ne by (simp add: h3_def)
  have h4a: "h4 a = Some (n\<lparr>left := ptr lr\<rparr>)"
    using h3a ne by (simp add: h4_def)
  have fa: "a \<notin> faddrs fs" "la \<notin> faddrs fs" using d by auto
  have h4q: "\<And>q. q \<in> faddrs fs \<Longrightarrow> h4 q = ?h q"
    using d by (cases lr) (auto simp: h4_def h3_def h2_def h1_def split: option.splits)
  have q: "\<And>q. pptr fs = Some q \<Longrightarrow> \<exists>qn. ?h q = Some qn \<and> q \<in> faddrs fs"
    using p by (cases fs rule: faddrs.cases) (auto split: option.splits)
  have s4: "reattach h3 a la = Some h6"
  proof (cases "pptr fs")
    case None
    then show ?thesis
      using h3a n ne
      by (simp add: reattach_def set_parent_def h3_def h4_def h5_def h6_def)
  next
    case (Some q)
    then obtain qn where qn: "?h q = Some qn" "q \<in> faddrs fs" using q by blast
    then have "h4 q = Some qn" using h4q by simp
    moreover have "q \<noteq> a" "q \<noteq> la" using qn fa by auto
    ultimately show ?thesis
      using h3a n ne Some
      by (auto simp: reattach_def set_parent_def set_left_def set_right_def h3_def h4_def h5_def h6_def)
  qed
  have sk: "skew s a = Some (s', la)"
    using n ln s1 s2 s3 s4 by (simp add: skew_def s'_def)
  have v6a: "h6 a = Some (n\<lparr>left := ptr lr, parent := Some la\<rparr>)"
    by (simp add: h6_def)
  have v6la: "h6 la = Some (ln\<lparr>right := Some a, parent := pptr fs\<rparr>)"
    using ne fa q by (auto simp: h6_def h5_def h4_def split: option.splits)
  have other: "\<And>x. x \<noteq> a \<Longrightarrow> x \<noteq> la \<Longrightarrow> ptr lr \<noteq> Some x \<Longrightarrow> pptr fs \<noteq> Some x \<Longrightarrow> h6 x = ?h x"
    by (cases lr) (auto simp: h6_def h5_def h4_def h3_def h2_def h1_def split: option.splits)
  have lrroot: "\<And>b bn. ptr lr = Some b \<Longrightarrow> ?h b = Some bn \<Longrightarrow> h6 b = Some (bn\<lparr>parent := Some a\<rparr>)"
    using d fa q by (cases lr) (auto simp: h6_def h5_def h4_def h3_def h2_def h1_def split: option.splits)
  have pf: "\<And>x. pptr fs = Some x \<Longrightarrow> x \<in> faddrs fs"
    using q by blast
  have rll: "rep h6 (Some la) ll"
  proof -
    have "rep h6 (Some la) ll = rep ?h (Some la) ll"
      using d pf by (intro rep_cong other) (cases lr; auto)+
    then show ?thesis using rs by simp
  qed
  have rr: "rep h6 (Some a) r"
  proof -
    have "rep h6 (Some a) r = rep ?h (Some a) r"
      using d pf by (intro rep_cong other) (cases lr; auto)+
    then show ?thesis using rs by simp
  qed
  have rlr: "rep h6 (Some a) lr"
  proof (rule rep_root_parent [OF rs(2)])
    show "distinct (addrs lr)" using d by simp
    show "\<And>x. x \<in> set (addrs lr) \<Longrightarrow> ptr lr \<noteq> Some x \<Longrightarrow> h6 x = ?h x"
      using d pf by (intro other) auto
    show "\<And>b n. ptr lr = Some b \<Longrightarrow> ?h b = Some n \<Longrightarrow> h6 b = Some (n\<lparr>parent := Some a\<rparr>)"
      by (rule lrroot)
  qed
  have rnew: "rep h6 (pptr fs) (Br ll la lk lv (Br lr a k lv r))"
    using v6a v6la rll rr rlr n ln by simp
  have pnew: "prep h6 (Some la) fs"
  proof (cases "pptr fs")
    case None
    then show ?thesis by (cases fs) auto
  next
    case (Some q)
    then obtain qn where qn: "?h q = Some qn" "q \<in> faddrs fs" using q by blast
    have qne: "q \<noteq> a" "q \<noteq> la" "ptr lr \<noteq> Some q" using qn d by (cases lr; auto)+
    have h4q': "h4 q = Some qn" using h4q qn by simp
    show ?thesis
    proof (rule prep_child [OF p Some qn(1) d(3)])
      show "\<And>x. x \<in> faddrs fs \<Longrightarrow> x \<noteq> q \<Longrightarrow> h6 x = ?h x"
        using d Some by (intro other) (cases lr; auto)+
      show "h6 q = Some (if left qn = Some a then qn\<lparr>left := Some la\<rparr> else qn\<lparr>right := Some la\<rparr>)"
        using qne h4q' Some by (simp add: h6_def h5_def)
      show "a \<notin> faddrs fs" by (rule fa)
    qed
  qed
  have dnew: "distinct (addrs (plug (Br ll la lk lv (Br lr a k lv r)) fs))"
    using d by (auto simp: distinct_plug_iff)
  have rtnew: "root s' = ptr (plug (Br ll la lk lv (Br lr a k lv r)) fs)"
    using rt root_plug [of "Br ll la lk lv lr" a k lv r fs] assms
    by (auto simp: s'_def tree_rep_def ptr_plug)
  have sv: "same_vals s s'"
    unfolding same_vals_def s'_def
  proof (intro conjI allI)
    fix x
    show "map_option val (heap (s\<lparr>heap := h6, root := if root s = Some a then Some la else root s\<rparr>) x) =
          map_option val (heap s x)"
      using n ln q
      by (cases lr) (auto simp: h6_def h5_def h4_def h3_def h2_def h1_def split: option.splits)
  qed simp_all
  have hs: "heap s' = h6" by (simp add: s'_def)
  have "tree_rep s' (plug (Br ll la lk lv (Br lr a k lv r)) fs)"
    unfolding tree_rep_def rep_plug hs using rnew pnew dnew rtnew by simp
  then show ?thesis
    using sk sv by blast
qed

lemma split_noop:
  assumes "tree_rep s (plug (Br l a k lv r) fs)"
    "r = Tip \<or> (\<exists>rl ra rk rlv. r = Br rl ra rk rlv Tip) \<or> rlvl r \<noteq> lv"
  shows "split s a = Some (s, a)"
proof -
  have r: "rep (heap s) (pptr fs) (Br l a k lv r)"
    using assms(1) by (simp add: tree_rep_def rep_plug)
  then obtain n where n: "heap s a = Some n" "right n = ptr r" "level n = lv" "rep (heap s) (Some a) r"
    by (auto split: option.splits)
  show ?thesis
  proof (cases r)
    case Tip
    then show ?thesis using n by (simp add: split_def)
  next
    case (Br rl ra rk rlv rr)
    then obtain rn where rn: "heap s ra = Some rn" "right rn = ptr rr" "rep (heap s) (Some ra) rr"
      using n by (auto split: option.splits)
    show ?thesis
    proof (cases rr)
      case Tip
      then show ?thesis using n rn Br by (simp add: split_def)
    next
      case (Br x b bk blv y)
      then obtain bn where "heap s b = Some bn" "level bn = blv"
        using rn by (auto split: option.splits)
      then show ?thesis using n rn Br \<open>r = _\<close> assms(2) by (simp add: split_def)
    qed
  qed
qed

lemma split_rot:
  assumes "tree_rep s (plug (Br l a k lv (Br rl ra rk rlv (Br x b bk lv y))) fs)"
  shows "\<exists>s'. split s a = Some (s', ra) \<and>
              tree_rep s' (plug (Br (Br l a k lv rl) ra rk (rlv + 1) (Br x b bk lv y)) fs) \<and>
              same_vals s s'"
proof -
  let ?h = "heap s"
  let ?rr = "Br x b bk lv y"
  let ?t = "Br l a k lv (Br rl ra rk rlv ?rr)"
  have r: "rep ?h (pptr fs) ?t" and p: "prep ?h (Some a) fs"
    and d: "distinct (addrs ?t)" "set (addrs ?t) \<inter> faddrs fs = {}" "fdistinct fs"
    and rt: "root s = ptr (plug ?t fs)"
    using assms by (simp_all add: tree_rep_def rep_plug distinct_plug_iff)
  obtain n where n: "?h a = Some n" "fst (val n) = k" "level n = lv" "parent n = pptr fs"
    "left n = ptr l" "right n = Some ra"
    using r by (auto split: option.splits)
  obtain rn where rn: "?h ra = Some rn" "fst (val rn) = rk" "level rn = rlv" "parent rn = Some a"
    "left rn = ptr rl" "right rn = Some b"
    using r n by (auto split: option.splits)
  have rs: "rep ?h (Some a) l" "rep ?h (Some ra) rl" "rep ?h (Some ra) ?rr"
    using r n rn by auto
  obtain bn where bn: "?h b = Some bn" "level bn = lv"
    using rs(3) by (auto split: option.splits)
  have ne: "a \<noteq> ra" using d by auto
  define h1 where "h1 = ?h(a \<mapsto> n\<lparr>right := ptr rl\<rparr>)"
  define h2 where "h2 = (case rl of Tip \<Rightarrow> h1
      | Br x c ck clv y \<Rightarrow> (case h1 c of None \<Rightarrow> h1 | Some cn \<Rightarrow> h1(c \<mapsto> cn\<lparr>parent := Some a\<rparr>)))"
  define h3 where "h3 = h2(ra \<mapsto> rn\<lparr>left := Some a\<rparr>)"
  define h4 where "h4 = h3(ra \<mapsto> rn\<lparr>left := Some a, parent := pptr fs\<rparr>)"
  define h5 where "h5 = (case pptr fs of None \<Rightarrow> h4
      | Some q \<Rightarrow> (case h4 q of None \<Rightarrow> h4
          | Some qn \<Rightarrow> if left qn = Some a then h4(q \<mapsto> qn\<lparr>left := Some ra\<rparr>)
                       else h4(q \<mapsto> qn\<lparr>right := Some ra\<rparr>)))"
  define h6 where "h6 = h5(a \<mapsto> n\<lparr>right := ptr rl, parent := Some ra\<rparr>)"
  define h7 where "h7 = h6(ra \<mapsto> rn\<lparr>left := Some a, parent := pptr fs, level := rlv + 1\<rparr>)"
  define s' where "s' = s\<lparr>heap := h7, root := (if root s = Some a then Some ra else root s)\<rparr>"
  have s1: "set_right ?h a (ptr rl) = Some h1"
    using n by (simp add: set_right_def h1_def)
  have s2: "set_parent_opt h1 (ptr rl) (Some a) = Some h2"
    using rs(2) d ne by (cases rl) (auto simp: set_parent_opt_def set_parent_def h2_def h1_def split: option.splits)
  have h2ra: "h2 ra = Some rn" and h2a: "h2 a = Some (n\<lparr>right := ptr rl\<rparr>)"
    using d ne rn by (cases rl; auto simp: h2_def h1_def split: option.splits)+
  have s3: "set_left h2 ra (Some a) = Some h3"
    using h2ra by (simp add: set_left_def h3_def)
  have h3a: "h3 a = Some (n\<lparr>right := ptr rl\<rparr>)"
    using h2a ne by (simp add: h3_def)
  have fa: "a \<notin> faddrs fs" "ra \<notin> faddrs fs" using d by auto
  have h4q: "\<And>q. q \<in> faddrs fs \<Longrightarrow> h4 q = ?h q"
    using d by (cases rl) (auto simp: h4_def h3_def h2_def h1_def split: option.splits)
  have q: "\<And>q. pptr fs = Some q \<Longrightarrow> \<exists>qn. ?h q = Some qn \<and> q \<in> faddrs fs"
    using p by (cases fs rule: faddrs.cases) (auto split: option.splits)
  have s4: "reattach h3 a ra = Some h6"
  proof (cases "pptr fs")
    case None
    then show ?thesis
      using h3a n ne
      by (simp add: reattach_def set_parent_def h3_def h4_def h5_def h6_def)
  next
    case (Some q)
    then obtain qn where qn: "?h q = Some qn" "q \<in> faddrs fs" using q by blast
    then have "h4 q = Some qn" using h4q by simp
    moreover have "q \<noteq> a" "q \<noteq> ra" using qn fa by auto
    ultimately show ?thesis
      using h3a n ne Some
      by (auto simp: reattach_def set_parent_def set_left_def set_right_def h3_def h4_def h5_def h6_def)
  qed
  have v6ra: "h6 ra = Some (rn\<lparr>left := Some a, parent := pptr fs\<rparr>)"
    using ne fa q by (auto simp: h6_def h5_def h4_def split: option.splits)
  have s5: "set_level h6 ra (level (rn\<lparr>left := Some a, parent := pptr fs\<rparr>) + 1) = Some h7"
    using v6ra rn by (simp add: set_level_def h7_def)
  have sk: "split s a = Some (s', ra)"
    using n rn bn s1 s2 s3 s4 s5 v6ra by (simp add: split_def s'_def)
  have v7a: "h7 a = Some (n\<lparr>right := ptr rl, parent := Some ra\<rparr>)"
    using ne by (simp add: h7_def h6_def)
  have v7ra: "h7 ra = Some (rn\<lparr>left := Some a, parent := pptr fs, level := rlv + 1\<rparr>)"
    by (simp add: h7_def)
  have other: "\<And>x. x \<noteq> a \<Longrightarrow> x \<noteq> ra \<Longrightarrow> ptr rl \<noteq> Some x \<Longrightarrow> pptr fs \<noteq> Some x \<Longrightarrow> h7 x = ?h x"
    by (cases rl) (auto simp: h7_def h6_def h5_def h4_def h3_def h2_def h1_def split: option.splits)
  have rlroot: "\<And>c cn. ptr rl = Some c \<Longrightarrow> ?h c = Some cn \<Longrightarrow> h7 c = Some (cn\<lparr>parent := Some a\<rparr>)"
    using d fa q by (cases rl) (auto simp: h7_def h6_def h5_def h4_def h3_def h2_def h1_def split: option.splits)
  have pf: "\<And>x. pptr fs = Some x \<Longrightarrow> x \<in> faddrs fs"
    using q by blast
  have rl': "rep h7 (Some a) l"
  proof -
    have "rep h7 (Some a) l = rep ?h (Some a) l"
      using d pf by (intro rep_cong other) (cases rl; auto)+
    then show ?thesis using rs by simp
  qed
  have rrr: "rep h7 (Some ra) ?rr"
  proof -
    have "rep h7 (Some ra) ?rr = rep ?h (Some ra) ?rr"
      using d pf by (intro rep_cong other) (cases rl; auto)+
    then show ?thesis using rs by simp
  qed
  have rrl: "rep h7 (Some a) rl"
  proof (rule rep_root_parent [OF rs(2)])
    show "distinct (addrs rl)" using d by simp
    show "\<And>x. x \<in> set (addrs rl) \<Longrightarrow> ptr rl \<noteq> Some x \<Longrightarrow> h7 x = ?h x"
      using d pf by (intro other) auto
    show "\<And>b n. ptr rl = Some b \<Longrightarrow> ?h b = Some n \<Longrightarrow> h7 b = Some (n\<lparr>parent := Some a\<rparr>)"
      by (rule rlroot)
  qed
  have rnew: "rep h7 (pptr fs) (Br (Br l a k lv rl) ra rk (rlv + 1) ?rr)"
    unfolding rep.simps v7ra v7a using rl' rrl rrr n rn by simp
  have pnew: "prep h7 (Some ra) fs"
  proof (cases "pptr fs")
    case None
    then show ?thesis by (cases fs) auto
  next
    case (Some q)
    then obtain qn where qn: "?h q = Some qn" "q \<in> faddrs fs" using q by blast
    have qne: "q \<noteq> a" "q \<noteq> ra" "ptr rl \<noteq> Some q" using qn d by (cases rl; auto)+
    have h4q': "h4 q = Some qn" using h4q qn by simp
    show ?thesis
    proof (rule prep_child [OF p Some qn(1) d(3)])
      show "\<And>x. x \<in> faddrs fs \<Longrightarrow> x \<noteq> q \<Longrightarrow> h7 x = ?h x"
        using d Some by (intro other) (cases rl; auto)+
      show "h7 q = Some (if left qn = Some a then qn\<lparr>left := Some ra\<rparr> else qn\<lparr>right := Some ra\<rparr>)"
        using qne h4q' Some by (simp add: h7_def h6_def h5_def)
      show "a \<notin> faddrs fs" by (rule fa)
    qed
  qed
  have dnew: "distinct (addrs (plug (Br (Br l a k lv rl) ra rk (rlv + 1) ?rr) fs))"
    using d by (auto simp: distinct_plug_iff)
  have rtnew: "root s' = ptr (plug (Br (Br l a k lv rl) ra rk (rlv + 1) ?rr) fs)"
    using rt root_plug [of l a k lv "Br rl ra rk rlv ?rr" fs] assms
    by (auto simp: s'_def tree_rep_def ptr_plug)
  have sv: "same_vals s s'"
    unfolding same_vals_def s'_def
  proof (intro conjI allI)
    fix x
    show "map_option val (heap (s\<lparr>heap := h7, root := if root s = Some a then Some ra else root s\<rparr>) x) =
          map_option val (heap s x)"
      using n rn q
      by (cases rl) (auto simp: h7_def h6_def h5_def h4_def h3_def h2_def h1_def split: option.splits)
  qed simp_all
  have hs: "heap s' = h7" by (simp add: s'_def)
  have "tree_rep s' (plug (Br (Br l a k lv rl) ra rk (rlv + 1) ?rr) fs)"
    unfolding tree_rep_def rep_plug hs using rnew pnew dnew rtnew by simp
  then show ?thesis
    using sk sv by blast
qed

section \<open>The upward walk of insert\<close>

partial_function (option) insert_walk_full ::
  "('k, 'v) map_t \<Rightarrow> addr option \<Rightarrow> ('k, 'v) map_t option" where
  "insert_walk_full s rebalance_node =
     (case rebalance_node of
        None \<Rightarrow> Some s
      | Some a \<Rightarrow> do {
          (s1, r1) \<leftarrow> skew s a;
          s2 \<leftarrow> (if a \<noteq> r1 then Some s1 else map_option fst (split s1 a));
          n \<leftarrow> heap s2 a;
          insert_walk_full s2 (parent n)
        })"

fun aks :: "'k atree \<Rightarrow> (addr \<times> 'k) list" where
  "aks Tip = []"
| "aks (Br l a k lv r) = aks l @ (a, k) # aks r"

lemma focus_node:
  assumes "tree_rep s (plug (Br l a k lv r) fs)"
  shows "\<exists>n. heap s a = Some n \<and> parent n = pptr fs \<and> fst (val n) = k \<and> level n = lv \<and>
             left n = ptr l \<and> right n = ptr r"
  using assms by (auto simp: tree_rep_def rep_plug split: option.splits)

lemma same_vals_refl [simp]: "same_vals s s"
  by (simp add: same_vals_def)

lemma same_vals_trans: "same_vals s s' \<Longrightarrow> same_vals s' s'' \<Longrightarrow> same_vals s s''"
  by (simp add: same_vals_def)

lemma loop_noop_step:
  assumes "tree_rep s (plug (Br l a k lv r) fs)"
    "l = Tip \<or> lvl l \<noteq> lv"
    "r = Tip \<or> (\<exists>rl ra rk rlv. r = Br rl ra rk rlv Tip) \<or> rlvl r \<noteq> lv"
  shows "u < 3 \<Longrightarrow> insert_loop s (Some a) u = insert_loop s (pptr fs) (u + 1)"
    and "insert_walk_full s (Some a) = insert_walk_full s (pptr fs)"
proof -
  obtain n where n: "heap s a = Some n" "parent n = pptr fs"
    using focus_node [OF assms(1)] by blast
  show "u < 3 \<Longrightarrow> insert_loop s (Some a) u = insert_loop s (pptr fs) (u + 1)"
    using skew_noop [OF assms(1,2)] split_noop [OF assms(1,3)] n
    by (subst insert_loop.simps) simp
  show "insert_walk_full s (Some a) = insert_walk_full s (pptr fs)"
    using skew_noop [OF assms(1,2)] split_noop [OF assms(1,3)] n
    by (subst insert_walk_full.simps) simp
qed

lemma loop_skew_step:
  assumes "tree_rep s (plug (Br (Br ll la lk lv lr) a k lv r) fs)"
  shows "\<exists>s'. tree_rep s' (plug (Br ll la lk lv (Br lr a k lv r)) fs) \<and> same_vals s s' \<and>
          (u < 3 \<longrightarrow> insert_loop s (Some a) u = insert_loop s' (Some la) 0) \<and>
          insert_walk_full s (Some a) = insert_walk_full s' (Some la)"
proof -
  obtain s' where s': "skew s a = Some (s', la)"
    "tree_rep s' (plug (Br ll la lk lv (Br lr a k lv r)) fs)" "same_vals s s'"
    using skew_rot [OF assms] by blast
  have "tree_rep s' (plug (Br lr a k lv r) (RF ll la lk lv # fs))"
    using s'(2) by simp
  then obtain n where n: "heap s' a = Some n" "parent n = Some la"
    using focus_node by fastforce
  have ne: "a \<noteq> la"
    using assms by (auto simp: tree_rep_def distinct_plug_iff)
  have "u < 3 \<Longrightarrow> insert_loop s (Some a) u = insert_loop s' (Some la) 0"
    using s'(1) n ne by (subst insert_loop.simps) simp
  moreover have "insert_walk_full s (Some a) = insert_walk_full s' (Some la)"
    using s'(1) n ne by (subst insert_walk_full.simps) simp
  ultimately show ?thesis using s'(2,3) by blast
qed

lemma loop_split_step:
  assumes "tree_rep s (plug (Br l a k lv (Br rl ra rk rlv (Br x b bk lv y))) fs)"
    "l = Tip \<or> lvl l \<noteq> lv"
  shows "\<exists>s'. tree_rep s' (plug (Br (Br l a k lv rl) ra rk (rlv + 1) (Br x b bk lv y)) fs) \<and>
          same_vals s s' \<and>
          (u < 3 \<longrightarrow> insert_loop s (Some a) u = insert_loop s' (Some ra) 0) \<and>
          insert_walk_full s (Some a) = insert_walk_full s' (Some ra)"
proof -
  obtain s' where s': "split s a = Some (s', ra)"
    "tree_rep s' (plug (Br (Br l a k lv rl) ra rk (rlv + 1) (Br x b bk lv y)) fs)" "same_vals s s'"
    using split_rot [OF assms(1)] by blast
  have "tree_rep s' (plug (Br l a k lv rl) (LF ra rk (rlv + 1) (Br x b bk lv y) # fs))"
    using s'(2) by simp
  then obtain n where n: "heap s' a = Some n" "parent n = Some ra"
    using focus_node by fastforce
  have ne: "a \<noteq> ra"
    using assms by (auto simp: tree_rep_def distinct_plug_iff)
  have "u < 3 \<Longrightarrow> insert_loop s (Some a) u = insert_loop s' (Some ra) 0"
    using s'(1) n ne skew_noop [OF assms] by (subst insert_loop.simps) simp
  moreover have "insert_walk_full s (Some a) = insert_walk_full s' (Some ra)"
    using s'(1) n ne skew_noop [OF assms] by (subst insert_walk_full.simps) simp
  ultimately show ?thesis using s'(2,3) by blast
qed

definition node_ok :: "nat \<Rightarrow> nat \<Rightarrow> nat \<Rightarrow> nat \<Rightarrow> bool" where
  "node_ok lv ll rl rrl = (lv = ll + 1 \<and> (lv = rl + 1 \<or> (lv = rl \<and> lv = rrl + 1)))"

fun aa :: "'k atree \<Rightarrow> bool" where
  "aa Tip = True"
| "aa (Br l a k lv r) = (aa l \<and> aa r \<and> node_ok lv (lvl l) (lvl r) (rlvl r))"

fun ctx_aa :: "'k frame list \<Rightarrow> nat \<Rightarrow> nat \<Rightarrow> bool" where
  "ctx_aa [] i j = True"
| "ctx_aa (LF a k lv r # fs) i j = (aa r \<and> node_ok lv i (lvl r) (rlvl r) \<and> ctx_aa fs lv (lvl r))"
| "ctx_aa (RF l a k lv # fs) i j = (aa l \<and> node_ok lv (lvl l) i j \<and> ctx_aa fs lv i)"

datatype phase = Clean | LeftH | RightH | Double | Grown

definition inv_lefth :: "'k frame list \<Rightarrow> 'k atree \<Rightarrow> bool" where
  "inv_lefth fs t =
     (case t of
        Tip \<Rightarrow> False
      | Br l a k lv r \<Rightarrow>
          l \<noteq> Tip \<and> aa l \<and> aa r \<and> lvl l = lv \<and> rlvl l + 1 = lv \<and>
          (lv = lvl r + 1 \<or> (lv = lvl r \<and> lv = rlvl r + 1)) \<and> ctx_aa fs lv (lvl r))"

definition inv_double :: "'k frame list \<Rightarrow> 'k atree \<Rightarrow> bool" where
  "inv_double fs t =
     (case t of
        Tip \<Rightarrow> False
      | Br l a k lv r \<Rightarrow>
          aa l \<and> lv = lvl l + 1 \<and> aa r \<and> lvl r = lv \<and> rlvl r = lv \<and> ctx_aa fs lv lv)"

primrec ins_inv :: "phase \<Rightarrow> 'k frame list \<Rightarrow> 'k atree \<Rightarrow> nat \<Rightarrow> bool" where
  "ins_inv Clean fs t u = (t \<noteq> Tip \<and> aa t \<and> ctx_aa fs (lvl t) (rlvl t))"
| "ins_inv LeftH fs t u = (u \<le> 1 \<and> inv_lefth fs t)"
| "ins_inv RightH fs t u =
     (u \<le> 1 \<and> t \<noteq> Tip \<and> aa t \<and> rlvl t = lvl t \<and> ctx_aa fs (lvl t) (lvl t - 1))"
| "ins_inv Double fs t u = (u \<le> 2 \<and> inv_double fs t)"
| "ins_inv Grown fs t u =
     (u = 0 \<and> t \<noteq> Tip \<and> aa t \<and> lvl t = rlvl t + 1 \<and> ctx_aa fs (rlvl t) (rlvl t))"

primrec rank :: "phase \<Rightarrow> nat" where
  "rank Clean = 0"
| "rank LeftH = 3"
| "rank RightH = 1"
| "rank Double = 2"
| "rank Grown = 1"

lemma aa_plug: "aa (plug t fs) = (aa t \<and> ctx_aa fs (lvl t) (rlvl t))"
  by (induction t fs rule: plug.induct) auto

fun lefts :: "'k frame list \<Rightarrow> (addr \<times> 'k) list" where
  "lefts [] = []"
| "lefts (LF a k lv r # fs) = lefts fs"
| "lefts (RF l a k lv # fs) = lefts fs @ aks l @ [(a, k)]"

fun rights :: "'k frame list \<Rightarrow> (addr \<times> 'k) list" where
  "rights [] = []"
| "rights (LF a k lv r # fs) = (a, k) # aks r @ rights fs"
| "rights (RF l a k lv # fs) = rights fs"

lemma aks_plug: "aks (plug t fs) = lefts fs @ aks t @ rights fs"
  by (induction t fs rule: plug.induct) auto

lemma node_ok_arith:
  "node_ok lv ll rl rrl \<Longrightarrow>
   0 < lv \<and> ll < lv \<and> rl \<le> lv \<and> lv \<le> rl + 1 \<and> (rl = lv \<longrightarrow> rrl < lv)"
  unfolding node_ok_def by arith

lemma aa_lvl_pos: "aa (Br l a k lv r) \<Longrightarrow> 0 < lv"
  by (auto dest!: node_ok_arith)

lemma aa_rlvl_le: "aa t \<Longrightarrow> rlvl t \<le> lvl t"
  by (cases t) (auto dest!: node_ok_arith)

lemma aa_skew_cond: "aa (Br l a k lv r) \<Longrightarrow> l = Tip \<or> lvl l \<noteq> lv"
  by (auto dest!: node_ok_arith)

lemma aa_split_cond':
  "aa (Br l a k lv r) \<Longrightarrow> rlvl r \<noteq> lv"
  using aa_rlvl_le [of r] by (auto dest!: node_ok_arith)

lemma aa_split_cond:
  "aa (Br l a k lv r) \<Longrightarrow> r = Tip \<or> (\<exists>rl ra rk rlv. r = Br rl ra rk rlv Tip) \<or> rlvl r \<noteq> lv"
  by (rule disjI2, rule disjI2, rule aa_split_cond')

lemma clean_walk:
  assumes "tree_rep s (plug t fs)" "aa (plug t fs)"
  shows "insert_loop s (ptr t) u = Some s \<and> insert_walk_full s (ptr t) = Some s"
  using assms
proof (induction fs arbitrary: t u)
  case Nil
  show ?case
  proof (cases t)
    case Tip
    then show ?thesis
      by (simp add: insert_loop.simps [of s None] insert_walk_full.simps [of s None])
  next
    case (Br l a k lv r)
    have t: "tree_rep s (plug (Br l a k lv r) [])" using Nil Br by simp
    have c: "l = Tip \<or> lvl l \<noteq> lv"
      "r = Tip \<or> (\<exists>rl ra rk rlv. r = Br rl ra rk rlv Tip) \<or> rlvl r \<noteq> lv"
      using Nil Br aa_skew_cond [of l a k lv r] aa_split_cond [of l a k lv r] by auto
    have "insert_walk_full s (Some a) = Some s"
      using loop_noop_step(2) [OF t c] by (simp add: insert_walk_full.simps [of s None])
    moreover have "insert_loop s (Some a) u = Some s"
    proof (cases "u < 3")
      case True
      then show ?thesis
        using loop_noop_step(1) [OF t c] by (simp add: insert_loop.simps [of s None])
    next
      case False
      then show ?thesis by (simp add: insert_loop.simps [of s "Some a"])
    qed
    ultimately show ?thesis using Br by simp
  qed
next
  case (Cons f fs)
  show ?case
  proof (cases t)
    case Tip
    then show ?thesis
      by (simp add: insert_loop.simps [of s None] insert_walk_full.simps [of s None])
  next
    case (Br l a k lv r)
    have t: "tree_rep s (plug (Br l a k lv r) (f # fs))" using Cons.prems Br by simp
    have "aa t" using Cons.prems by (simp add: aa_plug)
    then have c: "l = Tip \<or> lvl l \<noteq> lv"
      "r = Tip \<or> (\<exists>rl ra rk rlv. r = Br rl ra rk rlv Tip) \<or> rlvl r \<noteq> lv"
      using Br aa_skew_cond [of l a k lv r] aa_split_cond [of l a k lv r] by auto
    obtain t' where t': "plug t (f # fs) = plug t' fs" "ptr t' = Some (faddr f)"
      by (cases f) auto
    have ih: "\<And>u. insert_loop s (Some (faddr f)) u = Some s \<and>
                   insert_walk_full s (Some (faddr f)) = Some s"
      using Cons.IH [of t'] Cons.prems t' by simp
    have "insert_walk_full s (Some a) = Some s"
      using loop_noop_step(2) [OF t c] ih by simp
    moreover have "insert_loop s (Some a) u = Some s"
    proof (cases "u < 3")
      case True
      then show ?thesis
        using loop_noop_step(1) [OF t c] ih by simp
    next
      case False
      then show ?thesis by (simp add: insert_loop.simps [of s "Some a"])
    qed
    ultimately show ?thesis using Br by simp
  qed
qed

definition walk_ok :: "('k, 'v) map_t \<Rightarrow> 'k atree \<Rightarrow> 'k frame list \<Rightarrow> nat \<Rightarrow> bool" where
  "walk_ok s t fs u =
     (\<exists>s' T. insert_loop s (ptr t) u = Some s' \<and> insert_walk_full s (ptr t) = Some s' \<and>
             tree_rep s' T \<and> aa T \<and> aks T = aks (plug t fs) \<and> same_vals s s')"

lemma walk_ok_clean:
  assumes "tree_rep s (plug t fs)" "aa (plug t fs)"
  shows "walk_ok s t fs u"
  unfolding walk_ok_def using clean_walk [OF assms] assms by (intro exI [of _ s] exI [of _ "plug t fs"]) simp

lemma walk_ok_up:
  assumes "tree_rep s (plug (Br l a k lv r) fs)"
    "l = Tip \<or> lvl l \<noteq> lv" "rlvl r \<noteq> lv" "u < 3"
    "fs = [] \<Longrightarrow> aa (Br l a k lv r)"
    "\<And>pa pk plv pr fs'. fs = LF pa pk plv pr # fs' \<Longrightarrow>
        walk_ok s (Br (Br l a k lv r) pa pk plv pr) fs' (u + 1)"
    "\<And>pl pa pk plv fs'. fs = RF pl pa pk plv # fs' \<Longrightarrow>
        walk_ok s (Br pl pa pk plv (Br l a k lv r)) fs' (u + 1)"
  shows "walk_ok s (Br l a k lv r) fs u"
proof -
  have c: "r = Tip \<or> (\<exists>rl ra rk rlv. r = Br rl ra rk rlv Tip) \<or> rlvl r \<noteq> lv"
    using assms(3) by simp
  note st = loop_noop_step [OF assms(1,2) c]
  show ?thesis
  proof (cases fs rule: faddrs.cases)
    case 1
    then show ?thesis
      using st assms(1,4,5)
      unfolding walk_ok_def
      by (intro exI [of _ s] exI [of _ "Br l a k lv r"])
         (simp add: insert_loop.simps [of s None] insert_walk_full.simps [of s None])
  next
    case (2 pa pk plv pr fs')
    then show ?thesis
      using st assms(4) assms(6) [OF 2] by (simp add: walk_ok_def)
  next
    case (3 pl pa pk plv fs')
    then show ?thesis
      using st assms(4) assms(7) [OF 3] by (simp add: walk_ok_def)
  qed
qed

lemma walk_ok_skew:
  fixes s :: "('k, 'v) map_t"
  assumes "tree_rep s (plug (Br (Br ll la lk lv lr) a k lv r) fs)" "u < 3"
    "\<And>s' :: ('k, 'v) map_t. tree_rep s' (plug (Br ll la lk lv (Br lr a k lv r)) fs) \<Longrightarrow>
        walk_ok s' (Br ll la lk lv (Br lr a k lv r)) fs 0"
  shows "walk_ok s (Br (Br ll la lk lv lr) a k lv r) fs u"
proof -
  obtain s' where s': "tree_rep s' (plug (Br ll la lk lv (Br lr a k lv r)) fs)" "same_vals s s'"
    "insert_loop s (Some a) u = insert_loop s' (Some la) 0"
    "insert_walk_full s (Some a) = insert_walk_full s' (Some la)"
    using loop_skew_step [OF assms(1), of u] assms(2) by blast
  show ?thesis
    using assms(3) [OF s'(1)] s'(2-4)
    by (auto simp: walk_ok_def aks_plug intro: same_vals_trans)
qed

lemma walk_ok_split:
  fixes s :: "('k, 'v) map_t"
  assumes "tree_rep s (plug (Br l a k lv (Br rl ra rk rlv (Br x b bk lv y))) fs)" "u < 3"
    "l = Tip \<or> lvl l \<noteq> lv"
    "\<And>s' :: ('k, 'v) map_t. tree_rep s' (plug (Br (Br l a k lv rl) ra rk (rlv + 1) (Br x b bk lv y)) fs) \<Longrightarrow>
        walk_ok s' (Br (Br l a k lv rl) ra rk (rlv + 1) (Br x b bk lv y)) fs 0"
  shows "walk_ok s (Br l a k lv (Br rl ra rk rlv (Br x b bk lv y))) fs u"
proof -
  obtain s' where s': "tree_rep s' (plug (Br (Br l a k lv rl) ra rk (rlv + 1) (Br x b bk lv y)) fs)"
    "same_vals s s'"
    "insert_loop s (Some a) u = insert_loop s' (Some ra) 0"
    "insert_walk_full s (Some a) = insert_walk_full s' (Some ra)"
    using loop_split_step [OF assms(1,3), of u] assms(2) by blast
  show ?thesis
    using assms(4) [OF s'(1)] s'(2-4)
    by (auto simp: walk_ok_def aks_plug intro: same_vals_trans)
qed

lemma insert_walk_inv:
  fixes s :: "('k, 'v) map_t"
  assumes "tree_rep s (plug t fs)" "ins_inv ph fs t u"
  shows "walk_ok s t fs u"
  using assms
proof (induction "4 * length fs + rank ph" arbitrary: s t fs ph u rule: less_induct)
  case less
  note tr = less.prems(1) and inv = less.prems(2)
  show ?case
  proof (cases ph)
    case Clean
    then show ?thesis using tr inv by (intro walk_ok_clean) (simp_all add: aa_plug)
  next
    case Grown
    then obtain l a k lv r where t: "t = Br l a k lv r"
      using inv by (cases t) auto
    have f: "u = 0" "aa t" "lv = lvl r + 1" "ctx_aa fs (lvl r) (lvl r)"
      using inv Grown t by auto
    show ?thesis unfolding t
    proof (rule walk_ok_up)
      show "tree_rep s (plug (Br l a k lv r) fs)" using tr t by simp
      have aat: "aa (Br l a k lv r)" using f t by simp
      show "l = Tip \<or> lvl l \<noteq> lv" by (rule aa_skew_cond [OF aat])
      show "rlvl r \<noteq> lv" by (rule aa_split_cond' [OF aat])
      show "u < 3" using f by simp
      show "aa (Br l a k lv r)" using f t by simp
    next
      fix pa pk plv pr fs'
      assume fs: "fs = LF pa pk plv pr # fs'"
      have inv': "ins_inv LeftH fs' (Br t pa pk plv pr) (u + 1)"
        using f t fs by (auto simp: inv_lefth_def node_ok_def)
      have tr': "tree_rep s (plug (Br t pa pk plv pr) fs')"
        using tr fs by simp
      have m: "4 * length fs' + rank LeftH < 4 * length fs + rank ph"
        using fs Grown by simp
      show "walk_ok s (Br (Br l a k lv r) pa pk plv pr) fs' (u + 1)"
        using less.hyps [OF m tr' inv'] t by simp
    next
      fix pl pa pk plv fs'
      assume fs: "fs = RF pl pa pk plv # fs'"
      have inv': "ins_inv RightH fs' (Br pl pa pk plv t) (u + 1)"
        using f t fs by (auto simp: node_ok_def)
      have tr': "tree_rep s (plug (Br pl pa pk plv t) fs')"
        using tr fs by simp
      have m: "4 * length fs' + rank RightH < 4 * length fs + rank ph"
        using fs Grown by simp
      show "walk_ok s (Br pl pa pk plv (Br l a k lv r)) fs' (u + 1)"
        using less.hyps [OF m tr' inv'] t by simp
    qed
  next
    case RightH
    then obtain l a k lv r where t: "t = Br l a k lv r"
      using inv by (cases t) auto
    have f: "u \<le> 1" "aa t" "lvl r = lv" "ctx_aa fs lv (lv - 1)" "0 < lv"
      using inv RightH t by (auto dest: node_ok_arith)
    show ?thesis unfolding t
    proof (rule walk_ok_up)
      show "tree_rep s (plug (Br l a k lv r) fs)" using tr t by simp
      have aat: "aa (Br l a k lv r)" using f t by simp
      show "l = Tip \<or> lvl l \<noteq> lv" by (rule aa_skew_cond [OF aat])
      show "rlvl r \<noteq> lv" by (rule aa_split_cond' [OF aat])
      show "u < 3" using f by simp
      show "aa (Br l a k lv r)" using f t by simp
    next
      fix pa pk plv pr fs'
      assume fs: "fs = LF pa pk plv pr # fs'"
      have inv': "ins_inv Clean fs' (Br t pa pk plv pr) (u + 1)"
        using f t fs by auto
      have tr': "tree_rep s (plug (Br t pa pk plv pr) fs')"
        using tr fs by simp
      have m: "4 * length fs' + rank Clean < 4 * length fs + rank ph"
        using fs RightH by simp
      show "walk_ok s (Br (Br l a k lv r) pa pk plv pr) fs' (u + 1)"
        using less.hyps [OF m tr' inv'] t by simp
    next
      fix pl pa pk plv fs'
      assume fs: "fs = RF pl pa pk plv # fs'"
      have tr': "tree_rep s (plug (Br pl pa pk plv t) fs')"
        using tr fs by simp
      have c: "aa pl" "node_ok plv (lvl pl) lv (lv - 1)" "ctx_aa fs' plv lv"
        using f fs by auto
      show "walk_ok s (Br pl pa pk plv (Br l a k lv r)) fs' (u + 1)"
      proof (cases "plv = lv")
        case True
        have inv': "ins_inv Double fs' (Br pl pa pk plv t) (u + 1)"
          using f t c True by (auto simp: inv_double_def node_ok_def)
        have m: "4 * length fs' + rank Double < 4 * length fs + rank ph"
          using fs RightH by simp
        show ?thesis
          using less.hyps [OF m tr' inv'] t by simp
      next
        case False
        have inv': "ins_inv Clean fs' (Br pl pa pk plv t) (u + 1)"
          using f t c False by (auto simp: node_ok_def)
        have m: "4 * length fs' + rank Clean < 4 * length fs + rank ph"
          using fs RightH by simp
        show ?thesis
          using less.hyps [OF m tr' inv'] t by simp
      qed
    qed
  next
    case Double
    then obtain l a k lv r where t: "t = Br l a k lv r"
      using inv by (cases t) (auto simp: inv_double_def)
    have f: "u \<le> 2" "aa l" "lv = lvl l + 1" "aa r" "lvl r = lv" "rlvl r = lv" "ctx_aa fs lv lv"
      using inv Double t by (auto simp: inv_double_def)
    obtain rl ra rk rlv rr where r: "r = Br rl ra rk rlv rr"
      using f by (cases r) auto
    obtain x b bk blv y where rr: "rr = Br x b bk blv y"
      using f r by (cases rr) auto
    have lv: "rlv = lv" "blv = lv" using f r rr by auto
    let ?t' = "Br (Br l a k lv rl) ra rk (rlv + 1) (Br x b bk lv y)"
    have "walk_ok s (Br l a k lv (Br rl ra rk rlv (Br x b bk lv y))) fs u"
    proof (rule walk_ok_split)
      show "tree_rep s (plug (Br l a k lv (Br rl ra rk rlv (Br x b bk lv y))) fs)"
        using tr t r rr lv by simp
      show "u < 3" using f by simp
      show "l = Tip \<or> lvl l \<noteq> lv" using f by simp
    next
      fix s' :: "('k, 'v) map_t"
      assume tr': "tree_rep s' (plug ?t' fs)"
      have inv': "ins_inv Grown fs ?t' 0"
        using f r rr lv by (auto simp: node_ok_def)
      have m: "4 * length fs + rank Grown < 4 * length fs + rank ph"
        using Double by simp
      show "walk_ok s' ?t' fs 0"
        by (rule less.hyps [OF m tr' inv'])
    qed
    then show ?thesis using t r rr lv by simp
  next
    case LeftH
    then obtain l a k lv r where t: "t = Br l a k lv r"
      using inv by (cases t) (auto simp: inv_lefth_def)
    have f: "u \<le> 1" "l \<noteq> Tip" "aa l" "aa r" "lvl l = lv" "rlvl l + 1 = lv"
      "lv = lvl r + 1 \<or> (lv = lvl r \<and> lv = rlvl r + 1)" "ctx_aa fs lv (lvl r)"
      using inv LeftH t by (auto simp: inv_lefth_def)
    obtain ll la lk lr where l: "l = Br ll la lk lv lr"
      using f by (cases l) auto
    let ?t' = "Br ll la lk lv (Br lr a k lv r)"
    have "walk_ok s (Br (Br ll la lk lv lr) a k lv r) fs u"
    proof (rule walk_ok_skew)
      show "tree_rep s (plug (Br (Br ll la lk lv lr) a k lv r) fs)"
        using tr t l by simp
      show "u < 3" using f by simp
    next
      fix s' :: "('k, 'v) map_t"
      assume tr': "tree_rep s' (plug ?t' fs)"
      show "walk_ok s' ?t' fs 0"
      proof (cases "lv = lvl r + 1")
        case True
        have inv': "ins_inv RightH fs ?t' 0"
          using f l True by (auto simp: node_ok_def)
        have m: "4 * length fs + rank RightH < 4 * length fs + rank ph"
          using LeftH by simp
        show ?thesis
          by (rule less.hyps [OF m tr' inv'])
      next
        case False
        have inv': "ins_inv Double fs ?t' 0"
          using f l False by (auto simp: inv_double_def node_ok_def)
        have m: "4 * length fs + rank Double < 4 * length fs + rank ph"
          using LeftH by simp
        show ?thesis
          by (rule less.hyps [OF m tr' inv'])
      qed
    qed
    then show ?thesis using t l by simp
  qed
qed

section \<open>Search and insertion\<close>

fun descend :: "('k \<Rightarrow> 'k \<Rightarrow> bool) \<Rightarrow> 'k \<Rightarrow> 'k atree \<Rightarrow> 'k frame list \<Rightarrow> 'k atree \<times> 'k frame list" where
  "descend cmp x Tip fs = (Tip, fs)"
| "descend cmp x (Br l a k lv r) fs =
     (if \<not> cmp k x \<and> \<not> cmp x k then (Br l a k lv r, fs)
      else if cmp x k then descend cmp x l (LF a k lv r # fs)
      else descend cmp x r (RF l a k lv # fs))"

fun path_ok :: "('k \<Rightarrow> 'k \<Rightarrow> bool) \<Rightarrow> 'k \<Rightarrow> 'k frame list \<Rightarrow> bool" where
  "path_ok cmp x [] = True"
| "path_ok cmp x (LF a k lv r # fs) = (cmp x k \<and> path_ok cmp x fs)"
| "path_ok cmp x (RF l a k lv # fs) = (cmp k x \<and> path_ok cmp x fs)"

lemma descend_plug: "descend cmp x t fs = (t', fs') \<Longrightarrow> plug t' fs' = plug t fs"
  by (induction cmp x t fs rule: descend.induct) (auto split: if_splits)

lemma descend_path:
  "descend cmp x t fs = (t', fs') \<Longrightarrow> path_ok cmp x fs \<Longrightarrow> path_ok cmp x fs'"
  by (induction cmp x t fs rule: descend.induct) (auto split: if_splits)

lemma descend_found:
  "descend cmp x t fs = (Br l a k lv r, fs') \<Longrightarrow> \<not> cmp k x \<and> \<not> cmp x k"
  by (induction cmp x t fs rule: descend.induct) (auto split: if_splits)

lemma findParent_loop_descend:
  assumes "rep h pp t" "descend cmp x t fs = (t', fs')"
  shows "findParent_loop cmp h x (pptr fs) (ptr t) =
           Some (if t' = Tip then pptr fs' else ptr t', ptr t')"
  using assms
proof (induction cmp x t fs arbitrary: pp rule: descend.induct)
  case (1 cmp x fs)
  then show ?case by (simp add: findParent_loop.simps)
next
  case (2 cmp x l a k lv r fs)
  from "2.prems"(1) obtain n where n: "h a = Some n" "fst (val n) = k" "left n = ptr l"
    "right n = ptr r" "rep h (Some a) l" "rep h (Some a) r"
    by (auto split: option.splits)
  show ?case
  proof (cases "\<not> cmp k x \<and> \<not> cmp x k")
    case True
    then show ?thesis using n "2.prems" by (subst findParent_loop.simps) auto
  next
    case False
    show ?thesis
    proof (cases "cmp x k")
      case True
      then show ?thesis
        using n "2.prems" False "2.IH"(1) [OF False True n(5)]
        by (subst findParent_loop.simps) auto
    next
      case nl: False
      then show ?thesis
        using n "2.prems" False "2.IH"(2) [OF False nl n(6)]
        by (subst findParent_loop.simps) auto
    qed
  qed
qed

lemma findNode_loop_descend:
  assumes "rep h pp t" "descend cmp x t fs = (t', fs')"
  shows "findNode_loop cmp h x (ptr t) = Some (ptr t')"
  using assms
proof (induction cmp x t fs arbitrary: pp rule: descend.induct)
  case (1 cmp x fs)
  then show ?case by (simp add: findNode_loop.simps)
next
  case (2 cmp x l a k lv r fs)
  from "2.prems"(1) obtain n where n: "h a = Some n" "fst (val n) = k" "left n = ptr l"
    "right n = ptr r" "rep h (Some a) l" "rep h (Some a) r"
    by (auto split: option.splits)
  show ?case
  proof (cases "\<not> cmp k x \<and> \<not> cmp x k")
    case True
    then show ?thesis using n "2.prems" by (subst findNode_loop.simps) auto
  next
    case False
    show ?thesis
    proof (cases "cmp x k")
      case True
      then show ?thesis
        using n "2.prems" False "2.IH"(1) [OF False True n(5)]
        by (subst findNode_loop.simps) auto
    next
      case nl: False
      then show ?thesis
        using n "2.prems" False "2.IH"(2) [OF False nl n(6)]
        by (subst findNode_loop.simps) auto
    qed
  qed
qed

definition strict_order :: "('k \<Rightarrow> 'k \<Rightarrow> bool) \<Rightarrow> bool" where
  "strict_order cmp = ((\<forall>a. \<not> cmp a a) \<and> (\<forall>a b c. cmp a b \<longrightarrow> cmp b c \<longrightarrow> cmp a c))"

definition first_ptr :: "'k atree \<Rightarrow> addr option" where
  "first_ptr t = (case addrs t of [] \<Rightarrow> None | a # _ \<Rightarrow> Some a)"

definition map_inv :: "('k \<Rightarrow> 'k \<Rightarrow> bool) \<Rightarrow> ('k, 'v) map_t \<Rightarrow> 'k atree \<Rightarrow> bool" where
  "map_inv cmp s t =
     (tree_rep s t \<and> aa t \<and> sorted_wrt cmp (keys t) \<and> size_n s = length (addrs t) \<and>
      b_iter s = first_ptr t \<and> dom (heap s) = set (addrs t))"

lemma keys_aks: "keys t = map snd (aks t)"
  by (induction t) auto

lemma addrs_aks: "addrs t = map fst (aks t)"
  by (induction t) auto

lemma rep_dom: "rep h pp t \<Longrightarrow> a \<in> set (addrs t) \<Longrightarrow> h a \<noteq> None"
  by (induction t arbitrary: pp) (auto split: option.splits)

lemma prep_top_left:
  assumes "prep h q (LF p k lv r # fs)" "fdistinct (LF p k lv r # fs)" "h p = Some pn"
    "h' p = Some (pn\<lparr>left := q'\<rparr>)"
    "\<And>x. x \<in> faddrs (LF p k lv r # fs) \<Longrightarrow> x \<noteq> p \<Longrightarrow> h' x = h x"
  shows "prep h' q' (LF p k lv r # fs)"
proof -
  have "rep h' (Some p) r = rep h (Some p) r"
    using assms(2,5) by (intro rep_cong) auto
  moreover have "prep h' (Some p) fs = prep h (Some p) fs"
    using assms(2,5) by (intro prep_cong) auto
  ultimately show ?thesis using assms(1,3,4) by simp
qed

lemma prep_top_right:
  assumes "prep h q (RF l p k lv # fs)" "fdistinct (RF l p k lv # fs)" "h p = Some pn"
    "h' p = Some (pn\<lparr>right := q'\<rparr>)"
    "\<And>x. x \<in> faddrs (RF l p k lv # fs) \<Longrightarrow> x \<noteq> p \<Longrightarrow> h' x = h x"
  shows "prep h' q' (RF l p k lv # fs)"
proof -
  have "rep h' (Some p) l = rep h (Some p) l"
    using assms(2,5) by (intro rep_cong) auto
  moreover have "prep h' (Some p) fs = prep h (Some p) fs"
    using assms(2,5) by (intro prep_cong) auto
  ultimately show ?thesis using assms(1,3,4) by simp
qed

lemma tree_rep_fresh:
  assumes "tree_rep s t" "heap s new = None"
  shows "new \<notin> set (addrs t)"
  using assms rep_dom [of "heap s" None t new] by (auto simp: tree_rep_def)

lemma frame_node:
  assumes "tree_rep s (plug t (f # fs))"
  shows "\<exists>n. heap s (faddr f) = Some n \<and> parent n = pptr fs \<and>
           (case f of LF a k lv r \<Rightarrow> fst (val n) = k \<and> level n = lv \<and> left n = ptr t \<and> right n = ptr r
                    | RF l a k lv \<Rightarrow> fst (val n) = k \<and> level n = lv \<and> left n = ptr l \<and> right n = ptr t)"
  using assms by (cases f) (auto simp: tree_rep_def rep_plug split: option.splits)

lemma attach_left:
  assumes "tree_rep s (plug Tip (LF p k lv r # fs))" "heap s new = None"
  shows "\<exists>h'. set_left ((heap s)(new \<mapsto> \<lparr>val = (x, v), left = None, right = None,
                    parent = Some p, level = 1\<rparr>)) p (Some new) = Some h' \<and>
           tree_rep (s\<lparr>heap := h'\<rparr>) (plug (Br Tip new x 1 Tip) (LF p k lv r # fs)) \<and>
           h' new = Some \<lparr>val = (x, v), left = None, right = None, parent = Some p, level = 1\<rparr> \<and>
           (\<forall>y. y \<noteq> new \<longrightarrow> map_option val (h' y) = map_option val (heap s y))"
proof -
  let ?fs = "LF p k lv r # fs"
  let ?leaf = "\<lparr>val = (x, v), left = None, right = None, parent = Some p, level = 1\<rparr>"
  have nf: "new \<notin> set (addrs (plug Tip ?fs))"
    using tree_rep_fresh [OF assms] .
  have pr: "prep (heap s) None ?fs" and d: "fdistinct ?fs" and rt: "root s = ptr (plug Tip ?fs)"
    using assms(1) by (auto simp: tree_rep_def rep_plug distinct_plug_iff simp del: plug.simps)
  obtain pn where pn: "heap s p = Some pn"
    using pr by (auto split: option.splits)
  have np: "new \<noteq> p" "new \<notin> faddrs ?fs"
    using nf by (auto simp: set_addrs_plug)
  define h' where "h' = (heap s)(new \<mapsto> ?leaf, p \<mapsto> pn\<lparr>left := Some new\<rparr>)"
  have s1: "set_left ((heap s)(new \<mapsto> ?leaf)) p (Some new) = Some h'"
    using pn np by (simp add: set_left_def h'_def)
  have pr': "prep h' (Some new) ?fs"
  proof (rule prep_top_left [OF pr d pn])
    show "h' p = Some (pn\<lparr>left := Some new\<rparr>)" by (simp add: h'_def)
    show "\<And>y. y \<in> faddrs ?fs \<Longrightarrow> y \<noteq> p \<Longrightarrow> h' y = heap s y"
      using np by (auto simp: h'_def)
  qed
  have r': "rep h' (Some p) (Br Tip new x 1 Tip)"
    using np by (simp add: h'_def)
  have d': "distinct (addrs (plug (Br Tip new x 1 Tip) ?fs))"
    using assms(1) np by (simp add: tree_rep_def distinct_plug_iff del: plug.simps)
  have "tree_rep (s\<lparr>heap := h'\<rparr>) (plug (Br Tip new x 1 Tip) ?fs)"
    unfolding tree_rep_def rep_plug using pr' r' d' rt by (simp add: ptr_plug del: plug.simps)
  moreover have "h' new = Some ?leaf" using np by (simp add: h'_def)
  moreover have "\<forall>y. y \<noteq> new \<longrightarrow> map_option val (h' y) = map_option val (heap s y)"
    using pn by (auto simp: h'_def)
  ultimately show ?thesis using s1 by blast
qed

lemma attach_right:
  assumes "tree_rep s (plug Tip (RF l p k lv # fs))" "heap s new = None"
  shows "\<exists>h'. set_right ((heap s)(new \<mapsto> \<lparr>val = (x, v), left = None, right = None,
                    parent = Some p, level = 1\<rparr>)) p (Some new) = Some h' \<and>
           tree_rep (s\<lparr>heap := h'\<rparr>) (plug (Br Tip new x 1 Tip) (RF l p k lv # fs)) \<and>
           h' new = Some \<lparr>val = (x, v), left = None, right = None, parent = Some p, level = 1\<rparr> \<and>
           (\<forall>y. y \<noteq> new \<longrightarrow> map_option val (h' y) = map_option val (heap s y))"
proof -
  let ?fs = "RF l p k lv # fs"
  let ?leaf = "\<lparr>val = (x, v), left = None, right = None, parent = Some p, level = 1\<rparr>"
  have nf: "new \<notin> set (addrs (plug Tip ?fs))"
    using tree_rep_fresh [OF assms] .
  have pr: "prep (heap s) None ?fs" and d: "fdistinct ?fs" and rt: "root s = ptr (plug Tip ?fs)"
    using assms(1) by (auto simp: tree_rep_def rep_plug distinct_plug_iff simp del: plug.simps)
  obtain pn where pn: "heap s p = Some pn"
    using pr by (auto split: option.splits)
  have np: "new \<noteq> p" "new \<notin> faddrs ?fs"
    using nf by (auto simp: set_addrs_plug)
  define h' where "h' = (heap s)(new \<mapsto> ?leaf, p \<mapsto> pn\<lparr>right := Some new\<rparr>)"
  have s1: "set_right ((heap s)(new \<mapsto> ?leaf)) p (Some new) = Some h'"
    using pn np by (simp add: set_right_def h'_def)
  have pr': "prep h' (Some new) ?fs"
  proof (rule prep_top_right [OF pr d pn])
    show "h' p = Some (pn\<lparr>right := Some new\<rparr>)" by (simp add: h'_def)
    show "\<And>y. y \<in> faddrs ?fs \<Longrightarrow> y \<noteq> p \<Longrightarrow> h' y = heap s y"
      using np by (auto simp: h'_def)
  qed
  have r': "rep h' (Some p) (Br Tip new x 1 Tip)"
    using np by (simp add: h'_def)
  have d': "distinct (addrs (plug (Br Tip new x 1 Tip) ?fs))"
    using assms(1) np by (simp add: tree_rep_def distinct_plug_iff del: plug.simps)
  have "tree_rep (s\<lparr>heap := h'\<rparr>) (plug (Br Tip new x 1 Tip) ?fs)"
    unfolding tree_rep_def rep_plug using pr' r' d' rt by (simp add: ptr_plug del: plug.simps)
  moreover have "h' new = Some ?leaf" using np by (simp add: h'_def)
  moreover have "\<forall>y. y \<noteq> new \<longrightarrow> map_option val (h' y) = map_option val (heap s y)"
    using pn by (auto simp: h'_def)
  ultimately show ?thesis using s1 by blast
qed

lemma walk_okD:
  "walk_ok s t fs u \<Longrightarrow>
   \<exists>s' T. insert_loop s (ptr t) u = Some s' \<and> insert_walk_full s (ptr t) = Some s' \<and>
          tree_rep s' T \<and> aa T \<and> aks T = aks (plug t fs) \<and> same_vals s s'"
  by (simp add: walk_ok_def)

lemma insert_rebalance_left:
  fixes s :: "('k, 'v) map_t"
  assumes "tree_rep s (plug (Br Tip new x 1 Tip) (LF p k lv r # fs))"
    "aa (plug Tip (LF p k lv r # fs))"
  shows "walk_ok s (Br (Br Tip new x 1 Tip) p k lv r) fs 0"
proof (rule insert_walk_inv [where ph = LeftH])
  show "tree_rep s (plug (Br (Br Tip new x 1 Tip) p k lv r) fs)"
    using assms(1) by simp
  have "aa r" "node_ok lv 0 (lvl r) (rlvl r)" "ctx_aa fs lv (lvl r)"
    using assms(2) by (simp_all add: aa_plug del: plug.simps)
  then show "ins_inv LeftH fs (Br (Br Tip new x 1 Tip) p k lv r) 0"
    by (auto simp: inv_lefth_def node_ok_def)
qed

lemma insert_rebalance_right:
  fixes s :: "('k, 'v) map_t"
  assumes "tree_rep s (plug (Br Tip new x 1 Tip) (RF l p k lv # fs))"
    "aa (plug Tip (RF l p k lv # fs))"
  shows "\<exists>s' T. insert_loop s (pptr fs) 0 = Some s' \<and> insert_walk_full s (pptr fs) = Some s' \<and>
          tree_rep s' T \<and> aa T \<and> aks T = aks (plug (Br Tip new x 1 Tip) (RF l p k lv # fs)) \<and>
          same_vals s s'"
proof -
  let ?n = "Br Tip new x 1 Tip"
  let ?t = "Br l p k lv ?n"
  have c: "aa l" "node_ok lv (lvl l) 0 0" "ctx_aa fs lv 0"
    using assms(2) by (simp_all add: aa_plug del: plug.simps)
  then have lv: "lv = 1" "lvl l = 0" by (auto simp: node_ok_def)
  have at: "aa ?t" using c lv by (simp add: node_ok_def)
  have tr: "tree_rep s (plug ?t fs)" using assms(1) by simp
  show ?thesis
  proof (cases fs rule: faddrs.cases)
    case 1
    then show ?thesis
      using tr at
      by (intro exI [of _ s] exI [of _ ?t])
         (simp add: insert_loop.simps [of s None] insert_walk_full.simps [of s None])
  next
    case (2 g gk glv gr fs')
    have "ins_inv Clean fs' (Br ?t g gk glv gr) 0"
      using c lv 2 at by (auto simp: node_ok_def)
    moreover have "tree_rep s (plug (Br ?t g gk glv gr) fs')"
      using tr 2 by simp
    ultimately have "walk_ok s (Br ?t g gk glv gr) fs' 0"
      using insert_walk_inv by blast
    then show ?thesis using 2 by (auto dest!: walk_okD)
  next
    case (3 gl g gk glv fs')
    have tr': "tree_rep s (plug (Br gl g gk glv ?t) fs')"
      using tr 3 by simp
    have "\<exists>ph. ins_inv ph fs' (Br gl g gk glv ?t) 0"
    proof (cases "glv = 1")
      case True
      have "ins_inv Double fs' (Br gl g gk glv ?t) 0"
        using c lv 3 at True by (auto simp: inv_double_def node_ok_def)
      then show ?thesis ..
    next
      case False
      have "ins_inv Clean fs' (Br gl g gk glv ?t) 0"
        using c lv 3 at False by (auto simp: node_ok_def)
      then show ?thesis ..
    qed
    then have "walk_ok s (Br gl g gk glv ?t) fs' 0"
      using insert_walk_inv tr' by blast
    then show ?thesis using 3 by (auto dest!: walk_okD)
  qed
qed

lemma path_bounds:
  assumes "strict_order cmp" "sorted_wrt cmp (map snd (lefts fs @ rights fs))" "path_ok cmp x fs"
  shows "(\<forall>p \<in> set (lefts fs). cmp (snd p) x) \<and> (\<forall>p \<in> set (rights fs). cmp x (snd p))"
  using assms(2,3)
proof (induction fs rule: lefts.induct)
  case 1
  then show ?case by simp
next
  case (2 a k lv r fs)
  have tr: "\<And>a b c. cmp a b \<Longrightarrow> cmp b c \<Longrightarrow> cmp a c"
    using assms(1) unfolding strict_order_def by blast
  have "sorted_wrt cmp (map snd (lefts fs @ rights fs))"
    using "2.prems"(1) by (simp add: sorted_wrt_append)
  then have ih: "(\<forall>p \<in> set (lefts fs). cmp (snd p) x) \<and> (\<forall>p \<in> set (rights fs). cmp x (snd p))"
    using "2.IH" "2.prems"(2) by simp
  have xk: "cmp x k" using "2.prems"(2) by simp
  have "\<forall>p \<in> set (aks r). cmp k (snd p)"
    using "2.prems"(1) by (auto simp: sorted_wrt_append)
  then have "\<forall>p \<in> set (aks r). cmp x (snd p)" using xk tr by blast
  then show ?case using ih xk by auto
next
  case (3 l a k lv fs)
  have tr: "\<And>a b c. cmp a b \<Longrightarrow> cmp b c \<Longrightarrow> cmp a c"
    using assms(1) unfolding strict_order_def by blast
  have "sorted_wrt cmp (map snd (lefts fs @ rights fs))"
    using "3.prems"(1) by (simp add: sorted_wrt_append)
  then have ih: "(\<forall>p \<in> set (lefts fs). cmp (snd p) x) \<and> (\<forall>p \<in> set (rights fs). cmp x (snd p))"
    using "3.IH" "3.prems"(2) by simp
  have kx: "cmp k x" using "3.prems"(2) by simp
  have "\<forall>p \<in> set (aks l). cmp (snd p) k"
    using "3.prems"(1) by (auto simp: sorted_wrt_append)
  then have "\<forall>p \<in> set (aks l). cmp (snd p) x" using kx tr by blast
  then show ?case using ih kx by auto
qed

lemma sorted_insert_hole:
  assumes "strict_order cmp" "sorted_wrt cmp (map snd (lefts fs @ rights fs))" "path_ok cmp x fs"
  shows "sorted_wrt cmp (map snd (lefts fs @ (new, x) # rights fs))"
  using path_bounds [OF assms] assms(2) by (auto simp: sorted_wrt_append)

text \<open>Insertion with a walk that always goes up to the root.\<close>

definition insert_map_full ::
  "('k \<Rightarrow> 'k \<Rightarrow> bool) \<Rightarrow> ('k, 'v) map_t \<Rightarrow> addr \<Rightarrow> 'k \<times> 'v
     \<Rightarrow> (('k, 'v) map_t \<times> addr \<times> bool) option" where
  "insert_map_full cmp s new_node v = do {
     par \<leftarrow> findParent cmp s (fst v);
     present \<leftarrow> (case par of
                   None \<Rightarrow> Some False
                 | Some p \<Rightarrow> do { pn \<leftarrow> heap s p; Some (fst (val pn) = fst v) });
     if present then map_option (\<lambda>p. (s, p, False)) par
     else if heap s new_node \<noteq> None then None
     else do {
       let h = (heap s)(new_node \<mapsto>
                 \<lparr>val = v, left = None, right = None, parent = par, level = 1\<rparr>);
       let s = s\<lparr>heap := h, size_n := size_n s + 1\<rparr>;
       case par of
         None \<Rightarrow> Some (s\<lparr>root := Some new_node, b_iter := Some new_node\<rparr>, new_node, True)
       | Some p \<Rightarrow> do {
           b \<leftarrow> b_iter s;
           bn \<leftarrow> h b;
           let s = (if cmp (fst v) (fst (val bn)) then s\<lparr>b_iter := Some new_node\<rparr> else s);
           pn \<leftarrow> h p;
           (h, rebalance_node) \<leftarrow>
              (if cmp (fst v) (fst (val pn))
               then do { h \<leftarrow> set_left h p (Some new_node); Some (h, Some p) }
               else do { h \<leftarrow> set_right h p (Some new_node); Some (h, parent pn) });
           s \<leftarrow> insert_walk_full (s\<lparr>heap := h\<rparr>) rebalance_node;
           Some (s, new_node, True)
         }
     }
   }"

lemma tree_rep_cong: "heap s' = heap s \<Longrightarrow> root s' = root s \<Longrightarrow> tree_rep s' t = tree_rep s t"
  by (simp add: tree_rep_def)

lemma rep_lookup:
  "rep h pp t \<Longrightarrow> (a, k) \<in> set (aks t) \<Longrightarrow> \<exists>n. h a = Some n \<and> fst (val n) = k"
  by (induction t arbitrary: pp) (auto split: option.splits)

lemma first_ptr_aks: "first_ptr t = (case aks t of [] \<Rightarrow> None | p # _ \<Rightarrow> Some (fst p))"
  by (simp add: first_ptr_def addrs_aks split: list.splits)

lemma strict_order_asym: "strict_order cmp \<Longrightarrow> cmp a b \<Longrightarrow> \<not> cmp b a"
  unfolding strict_order_def by blast

lemma strict_order_irrefl: "strict_order cmp \<Longrightarrow> \<not> cmp a a"
  unfolding strict_order_def by blast

lemma first_after_insert:
  assumes "strict_order cmp" "sorted_wrt cmp (map snd (lefts fs @ rights fs))" "path_ok cmp x fs"
    "lefts fs @ rights fs = (b, k0) # rest"
  shows "(case lefts fs @ (new, x) # rights fs of [] \<Rightarrow> None | p # _ \<Rightarrow> Some (fst p)) =
         (if cmp x k0 then Some new else Some b)"
proof (cases "lefts fs")
  case Nil
  then have "(b, k0) \<in> set (rights fs)" using assms(4) by simp
  then have "cmp x k0" using path_bounds [OF assms(1-3)] by auto
  then show ?thesis using Nil by simp
next
  case (Cons p ps)
  then have p: "p = (b, k0)" using assms(4) by simp
  then have "(b, k0) \<in> set (lefts fs)" using Cons by simp
  then have "cmp k0 x" using path_bounds [OF assms(1-3)] by auto
  then have "\<not> cmp x k0" using strict_order_asym [OF assms(1)] by blast
  then show ?thesis using Cons p by simp
qed

lemma descend_absent:
  assumes "descend cmp x t [] = (t', fs')" "\<forall>k \<in> set (keys t). cmp x k \<or> cmp k x"
  shows "t' = Tip"
proof (cases t')
  case Tip
  then show ?thesis .
next
  case (Br l a k lv r)
  have "plug (Br l a k lv r) fs' = t" using descend_plug [OF assms(1)] Br by simp
  then have "aks t = lefts fs' @ (aks l @ (a, k) # aks r) @ rights fs'"
    using aks_plug [of "Br l a k lv r" fs'] by simp
  then have "k \<in> set (keys t)" by (simp add: keys_aks)
  moreover have "\<not> cmp k x \<and> \<not> cmp x k" using descend_found assms(1) Br by fast
  ultimately show ?thesis using assms(2) by blast
qed

lemma findParent_absent:
  assumes "map_inv cmp s T" "descend cmp x T [] = (Tip, fs)"
  shows "findParent cmp s x = Some (pptr fs)"
proof -
  have r: "rep (heap s) None T" "root s = ptr T" "size_n s = length (addrs T)"
    using assms(1) by (simp_all add: map_inv_def tree_rep_def)
  have l: "findParent_loop cmp (heap s) x None (root s) = Some (pptr fs, None)"
    using findParent_loop_descend [OF r(1) assms(2)] r(2) by simp
  have "size_n s = 0 \<Longrightarrow> pptr fs = None"
    using r(3) assms(2) by (cases T) auto
  then show ?thesis using l by (auto simp: findParent_def)
qed

lemma findParent_present:
  assumes "map_inv cmp s T" "descend cmp x T [] = (Br l a k lv r, fs)"
  shows "findParent cmp s x = Some (Some a)"
proof -
  have r: "rep (heap s) None T" "root s = ptr T"
    using assms(1) by (simp_all add: map_inv_def tree_rep_def)
  have l: "findParent_loop cmp (heap s) x None (root s) = Some (Some a, Some a)"
    using findParent_loop_descend [OF r(1) assms(2)] r(2) by simp
  then show ?thesis by (simp add: findParent_def)
qed

lemma insert_empty:
  assumes "map_inv cmp s Tip" "heap s new = None"
  shows "insert_map cmp s new (x, v) =
           Some (s\<lparr>heap := (heap s)(new \<mapsto> \<lparr>val = (x, v), left = None, right = None,
                      parent = None, level = 1\<rparr>),
                   size_n := size_n s + 1, root := Some new, b_iter := Some new\<rparr>, new, True) \<and>
         insert_map_full cmp s new (x, v) = insert_map cmp s new (x, v) \<and>
         map_inv cmp (s\<lparr>heap := (heap s)(new \<mapsto> \<lparr>val = (x, v), left = None, right = None,
                      parent = None, level = 1\<rparr>),
                   size_n := size_n s + 1, root := Some new, b_iter := Some new\<rparr>)
           (Br Tip new x 1 Tip)"
proof -
  have fp: "findParent cmp s x = Some None"
    using findParent_absent [OF assms(1), of x "[]"] by simp
  have d: "dom (heap s) = {}" using assms(1) by (simp add: map_inv_def)
  show ?thesis
    using fp assms d
    by (auto simp: insert_map_def insert_map_full_def map_inv_def tree_rep_def node_ok_def
                   first_ptr_def)
qed

lemma insert_finish:
  fixes s :: "('k, 'v) map_t"
  assumes inv: "map_inv cmp s T" and so: "strict_order cmp"
    and T: "T = plug Tip fs" and po: "path_ok cmp x fs"
    and hd: "aks T = (b, k0) # rest"
    and new: "heap s new = None"
    and v2: "map_option val (heap s2 new) = Some (x, v)"
      "\<forall>y. y \<noteq> new \<longrightarrow> map_option val (heap s2 y) = map_option val (heap s y)"
    and sz: "size_n s2 = size_n s + 1"
    and bi: "b_iter s2 = (if cmp x k0 then Some new else b_iter s)"
    and w: "tree_rep s3 T3" "aa T3" "aks T3 = aks (plug (Br Tip new x 1 Tip) fs)" "same_vals s2 s3"
  shows "map_inv cmp s3 T3 \<and> aks T3 = lefts fs @ (new, x) # rights fs \<and>
         map_option val (heap s3 new) = Some (x, v) \<and>
         (\<forall>y. y \<noteq> new \<longrightarrow> map_option val (heap s3 y) = map_option val (heap s y))"
proof -
  have a3: "aks T3 = lefts fs @ (new, x) # rights fs"
    using w(3) by (simp add: aks_plug)
  have aT: "aks T = lefts fs @ rights fs"
    using T by (simp add: aks_plug)
  have sT: "sorted_wrt cmp (map snd (lefts fs @ rights fs))"
    using inv aT by (simp add: map_inv_def keys_aks)
  have sorted3: "sorted_wrt cmp (keys T3)"
    using sorted_insert_hole [OF so sT po] a3 by (simp add: keys_aks)
  have vals3: "\<And>y. map_option val (heap s3 y) = map_option val (heap s2 y)"
    using w(4) by (simp add: same_vals_def)
  have size3: "size_n s3 = length (addrs T3)"
    using w(4) sz inv a3 aT by (simp add: same_vals_def map_inv_def addrs_aks)
  have "b_iter s = Some b" using inv hd by (simp add: map_inv_def first_ptr_aks)
  then have b3: "b_iter s3 = first_ptr T3"
    using w(4) bi first_after_insert [OF so sT po, of b k0 rest new] hd aT a3
    by (simp add: same_vals_def first_ptr_aks)
  have dom2: "dom (heap s2) = insert new (dom (heap s))"
  proof (rule set_eqI)
    fix y
    show "y \<in> dom (heap s2) \<longleftrightarrow> y \<in> insert new (dom (heap s))"
    proof (cases "y = new")
      case True
      then show ?thesis using v2(1) by (auto simp: dom_def)
    next
      case False
      have "map_option val (heap s2 y) = map_option val (heap s y)" using v2(2) False by simp
      then show ?thesis using False by (cases "heap s2 y"; cases "heap s y") (auto simp: dom_def)
    qed
  qed
  have "dom (heap s3) = dom (heap s2)"
  proof (rule set_eqI)
    fix y
    show "y \<in> dom (heap s3) \<longleftrightarrow> y \<in> dom (heap s2)"
      using vals3 [of y] by (cases "heap s3 y"; cases "heap s2 y") (auto simp: dom_def)
  qed
  then have dom3: "dom (heap s3) = set (addrs T3)"
    using dom2 inv a3 aT by (auto simp: map_inv_def addrs_aks)
  show ?thesis
    using w(1,2) sorted3 size3 b3 dom3 a3 vals3 v2 by (simp add: map_inv_def)
qed

lemma insert_nonempty:
  fixes s :: "('k, 'v) map_t"
  assumes inv: "map_inv cmp s T" and so: "strict_order cmp" and new: "heap s new = None"
    and d: "descend cmp x T [] = (Tip, f # fs)"
  shows "\<exists>s' T'. insert_map cmp s new (x, v) = Some (s', new, True) \<and>
           insert_map_full cmp s new (x, v) = Some (s', new, True) \<and>
           map_inv cmp s' T' \<and> aks T' = lefts (f # fs) @ (new, x) # rights (f # fs) \<and>
           map_option val (heap s' new) = Some (x, v) \<and>
           (\<forall>y. y \<noteq> new \<longrightarrow> map_option val (heap s' y) = map_option val (heap s y))"
proof -
  let ?N = "Br Tip new x 1 Tip"
  have T: "T = plug Tip (f # fs)" using descend_plug [OF d] by simp
  have po: "path_ok cmp x (f # fs)" using descend_path [OF d] by simp
  have tr: "tree_rep s (plug Tip (f # fs))" and aaT: "aa (plug Tip (f # fs))"
    using inv T by (simp_all add: map_inv_def)
  have fp: "findParent cmp s x = Some (Some (faddr f))"
    using findParent_absent [OF inv d] by simp
  obtain pn where pn: "heap s (faddr f) = Some pn" "parent pn = pptr fs"
    "case f of LF a k lv r \<Rightarrow> fst (val pn) = k | RF l a k lv \<Rightarrow> fst (val pn) = k"
    using frame_node [OF tr] by (cases f) auto
  have kx: "fst (val pn) \<noteq> x"
    using po pn(3) strict_order_irrefl [OF so] by (cases f) auto
  have aT: "aks T = lefts (f # fs) @ rights (f # fs)"
    using T by (simp add: aks_plug del: plug.simps)
  have "aks T \<noteq> []" using aT by (cases f) auto
  then obtain b k0 rest where hd: "aks T = (b, k0) # rest"
    by (cases "aks T") auto
  have bi: "b_iter s = Some b" using inv hd by (simp add: map_inv_def first_ptr_aks)
  obtain bn where bn: "heap s b = Some bn" "fst (val bn) = k0"
    using rep_lookup [of "heap s" None T b k0] inv hd by (auto simp: map_inv_def tree_rep_def)
  have nb: "b \<noteq> new" "faddr f \<noteq> new" using new bn pn by auto
  define leaf where "leaf = \<lparr>val = (x, v), left = None, right = None, parent = Some (faddr f), level = 1\<rparr>"
  define h1 where "h1 = (heap s)(new \<mapsto> leaf)"
  show ?thesis
  proof (cases f)
    case (LF p k lv r)
    have c: "cmp x (fst (val pn))" using po pn(3) LF by simp
    obtain h' where h': "set_left h1 p (Some new) = Some h'"
      "tree_rep (s\<lparr>heap := h'\<rparr>) (plug ?N (LF p k lv r # fs))"
      "h' new = Some leaf"
      "\<forall>y. y \<noteq> new \<longrightarrow> map_option val (h' y) = map_option val (heap s y)"
      using attach_left [OF tr [unfolded LF] new, of x v] LF
      unfolding h1_def leaf_def by auto
    define s2 where "s2 = s\<lparr>heap := h', size_n := size_n s + 1,
                          b_iter := (if cmp x k0 then Some new else b_iter s)\<rparr>"
    have tr2: "tree_rep s2 (plug ?N (LF p k lv r # fs))"
      using h'(2) by (simp add: s2_def tree_rep_def)
    obtain s3 T3 where w: "insert_loop s2 (Some p) 0 = Some s3"
      "insert_walk_full s2 (Some p) = Some s3" "tree_rep s3 T3" "aa T3"
      "aks T3 = aks (plug ?N (LF p k lv r # fs))" "same_vals s2 s3"
      using walk_okD [OF insert_rebalance_left [OF tr2 aaT [unfolded LF]]] by auto
    have fin: "map_inv cmp s3 T3 \<and> aks T3 = lefts (f # fs) @ (new, x) # rights (f # fs) \<and>
         map_option val (heap s3 new) = Some (x, v) \<and>
         (\<forall>y. y \<noteq> new \<longrightarrow> map_option val (heap s3 y) = map_option val (heap s y))"
    proof (rule insert_finish [OF inv so T po hd new _ _ _ _ w(3,4) _ w(6)])
      show "map_option val (heap s2 new) = Some (x, v)"
        using h'(3) by (simp add: s2_def leaf_def)
      show "\<forall>y. y \<noteq> new \<longrightarrow> map_option val (heap s2 y) = map_option val (heap s y)"
        using h'(4) by (simp add: s2_def)
      show "size_n s2 = size_n s + 1" by (simp add: s2_def)
      show "b_iter s2 = (if cmp x k0 then Some new else b_iter s)" by (simp add: s2_def)
      show "aks T3 = aks (plug ?N (f # fs))" using w(5) LF by simp
    qed
    have "insert_map cmp s new (x, v) =
            insert_loop s2 (Some p) 0 \<bind> (\<lambda>s. Some (s, new, True))"
      using fp pn kx new bi bn nb c h'(1) LF
      by (cases s; cases "cmp x k0")
         (simp_all add: insert_map_def h1_def leaf_def s2_def Let_def)
    then have e1: "insert_map cmp s new (x, v) = Some (s3, new, True)"
      using w(1) by simp
    have "insert_map_full cmp s new (x, v) =
            insert_walk_full s2 (Some p) \<bind> (\<lambda>s. Some (s, new, True))"
      using fp pn kx new bi bn nb c h'(1) LF
      by (cases s; cases "cmp x k0")
         (simp_all add: insert_map_full_def h1_def leaf_def s2_def Let_def)
    then have e2: "insert_map_full cmp s new (x, v) = Some (s3, new, True)"
      using w(2) by simp
    show ?thesis using e1 e2 fin by blast
  next
    case (RF l p k lv)
    have c: "\<not> cmp x (fst (val pn))"
      using po pn(3) RF strict_order_asym [OF so] by auto
    obtain h' where h': "set_right h1 p (Some new) = Some h'"
      "tree_rep (s\<lparr>heap := h'\<rparr>) (plug ?N (RF l p k lv # fs))"
      "h' new = Some leaf"
      "\<forall>y. y \<noteq> new \<longrightarrow> map_option val (h' y) = map_option val (heap s y)"
      using attach_right [OF tr [unfolded RF] new, of x v] RF
      unfolding h1_def leaf_def by auto
    define s2 where "s2 = s\<lparr>heap := h', size_n := size_n s + 1,
                          b_iter := (if cmp x k0 then Some new else b_iter s)\<rparr>"
    have tr2: "tree_rep s2 (plug ?N (RF l p k lv # fs))"
      using h'(2) by (simp add: s2_def tree_rep_def)
    obtain s3 T3 where w: "insert_loop s2 (pptr fs) 0 = Some s3"
      "insert_walk_full s2 (pptr fs) = Some s3" "tree_rep s3 T3" "aa T3"
      "aks T3 = aks (plug ?N (RF l p k lv # fs))" "same_vals s2 s3"
      using insert_rebalance_right [OF tr2 aaT [unfolded RF]] by auto
    have fin: "map_inv cmp s3 T3 \<and> aks T3 = lefts (f # fs) @ (new, x) # rights (f # fs) \<and>
         map_option val (heap s3 new) = Some (x, v) \<and>
         (\<forall>y. y \<noteq> new \<longrightarrow> map_option val (heap s3 y) = map_option val (heap s y))"
    proof (rule insert_finish [OF inv so T po hd new _ _ _ _ w(3,4) _ w(6)])
      show "map_option val (heap s2 new) = Some (x, v)"
        using h'(3) by (simp add: s2_def leaf_def)
      show "\<forall>y. y \<noteq> new \<longrightarrow> map_option val (heap s2 y) = map_option val (heap s y)"
        using h'(4) by (simp add: s2_def)
      show "size_n s2 = size_n s + 1" by (simp add: s2_def)
      show "b_iter s2 = (if cmp x k0 then Some new else b_iter s)" by (simp add: s2_def)
      show "aks T3 = aks (plug ?N (f # fs))" using w(5) RF by simp
    qed
    have "insert_map cmp s new (x, v) =
            insert_loop s2 (pptr fs) 0 \<bind> (\<lambda>s. Some (s, new, True))"
      using fp pn kx new bi bn nb c h'(1) RF
      by (cases s; cases "cmp x k0")
         (simp_all add: insert_map_def h1_def leaf_def s2_def Let_def)
    then have e1: "insert_map cmp s new (x, v) = Some (s3, new, True)"
      using w(1) by simp
    have "insert_map_full cmp s new (x, v) =
            insert_walk_full s2 (pptr fs) \<bind> (\<lambda>s. Some (s, new, True))"
      using fp pn kx new bi bn nb c h'(1) RF
      by (cases s; cases "cmp x k0")
         (simp_all add: insert_map_full_def h1_def leaf_def s2_def Let_def)
    then have e2: "insert_map_full cmp s new (x, v) = Some (s3, new, True)"
      using w(2) by simp
    show ?thesis using e1 e2 fin by blast
  qed
qed

lemma bst_descend:
  assumes "strict_order cmp"
  shows "sorted_wrt cmp (keys t) \<Longrightarrow> (a, x) \<in> set (aks t) \<Longrightarrow>
         \<exists>l lv r fs'. descend cmp x t fs = (Br l a x lv r, fs')"
proof (induction t arbitrary: fs)
  case Tip
  then show ?case by simp
next
  case (Br l b k lv r)
  have s: "sorted_wrt cmp (keys l)" "sorted_wrt cmp (keys r)"
    "\<forall>p \<in> set (aks l). cmp (snd p) k" "\<forall>p \<in> set (aks r). cmp k (snd p)"
    using Br.prems(1) by (auto simp: sorted_wrt_append keys_aks)
  consider "(a, x) = (b, k)" | "(a, x) \<in> set (aks l)" | "(a, x) \<in> set (aks r)"
    using Br.prems(2) by auto
  then show ?case
  proof cases
    case 1
    then show ?thesis using strict_order_irrefl [OF assms] by auto
  next
    case 2
    then have c: "cmp x k" using s(3) by auto
    then have "\<not> cmp k x" using strict_order_asym [OF assms] by blast
    then show ?thesis using c Br.IH(1) [OF s(1) 2] by simp
  next
    case 3
    then have c: "cmp k x" using s(4) by auto
    then have "\<not> cmp x k" using strict_order_asym [OF assms] by blast
    then show ?thesis using c Br.IH(2) [OF s(2) 3] by simp
  qed
qed

lemma find_present:
  assumes "map_inv cmp s T" "strict_order cmp" "(a, x) \<in> set (aks T)"
  shows "find_map cmp s x = Some (Some a)" "findParent cmp s x = Some (Some a)"
proof -
  obtain l lv r fs where d: "descend cmp x T [] = (Br l a x lv r, fs)"
    using bst_descend [OF assms(2), of T a x "[]"] assms(1,3) by (auto simp: map_inv_def)
  have r: "rep (heap s) None T" "root s = ptr T"
    using assms(1) by (simp_all add: map_inv_def tree_rep_def)
  show "find_map cmp s x = Some (Some a)"
    using findNode_loop_descend [OF r(1) d] r(2) by (simp add: find_map_def findNode_def)
  show "findParent cmp s x = Some (Some a)"
    by (rule findParent_present [OF assms(1) d])
qed

lemma insert_new_core:
  fixes s :: "('k, 'v) map_t"
  assumes inv: "map_inv cmp s T" and so: "strict_order cmp" and new: "heap s new = None"
    and ne: "\<forall>k \<in> set (keys T). cmp x k \<or> cmp k x"
  shows "\<exists>s' T' fs. insert_map cmp s new (x, v) = Some (s', new, True) \<and>
           insert_map_full cmp s new (x, v) = Some (s', new, True) \<and>
           map_inv cmp s' T' \<and> T = plug Tip fs \<and> aks T' = lefts fs @ (new, x) # rights fs \<and>
           map_option val (heap s' new) = Some (x, v) \<and>
           (\<forall>y. y \<noteq> new \<longrightarrow> map_option val (heap s' y) = map_option val (heap s y))"
proof -
  obtain t' fs where d: "descend cmp x T [] = (t', fs)"
    by (cases "descend cmp x T []") auto
  have t': "t' = Tip" by (rule descend_absent [OF d ne])
  have T: "T = plug Tip fs" using descend_plug [OF d] t' by simp
  show ?thesis
  proof (cases fs)
    case Nil
    then have "T = Tip" using T by simp
    then show ?thesis
      using insert_empty [of cmp s new x v] inv new Nil
      by (intro exI [of _ "[]"] exI [of _ "Br Tip new x 1 Tip"] exI) auto
  next
    case (Cons f fs')
    then show ?thesis
      using insert_nonempty [OF inv so new, of x f fs' v] d t' T by blast
  qed
qed







section \<open>Example maps\<close>

text \<open>The map of the example: 5, 3, 8 and 1 inserted in this order into an empty map.\<close>

definition example_map :: "(int, string) map_t option" where
  "example_map = do {
     (s, _, _) \<leftarrow> insert_map (<) Map_new 0 (5, ''a'');
     (s, _, _) \<leftarrow> insert_map (<) s 1 (3, ''b'');
     (s, _, _) \<leftarrow> insert_map (<) s 2 (8, ''c'');
     (s, _, _) \<leftarrow> insert_map (<) s 3 (1, ''d'');
     Some s
   }"

text \<open>A strict weak ordering of the integers in which \<open>1\<close> and \<open>- 1\<close> are equivalent.\<close>

definition cmp_abs :: "int \<Rightarrow> int \<Rightarrow> bool" where
  "cmp_abs a b = (\<bar>a\<bar> < \<bar>b\<bar>)"




text \<open>A map with the single entry \<open>(1, ''a'')\<close>.\<close>

definition single_map :: "(int, string) map_t" where
  "single_map =
     \<lparr>heap = [0 \<mapsto> \<lparr>val = (1, ''a''), left = None, right = None, parent = None, level = 1\<rparr>],
      root = Some 0, b_iter = Some 0, size_n = 1\<rparr>"

lemma strict_order_int: "strict_order ((<) :: int \<Rightarrow> int \<Rightarrow> bool)"
  by (auto simp: strict_order_def)

lemma single_map_inv: "map_inv (<) single_map (Br Tip 0 1 1 Tip)"
  by (simp add: map_inv_def tree_rep_def single_map_def node_ok_def first_ptr_def)

section \<open>Deletion with two children\<close>

text \<open>
  C2. In \<open>example_map\<close> the node holding key 5 (address 0) has two children and its in-order
  successor holds \<open>(8, ''c'')\<close>. After \<open>erase(5)\<close> the successor node (address 2) is
  released and the retained node holds key 8, but looking key 8 up yields the mapped value
  \<open>''a''\<close> of the erased key, not the successor's \<open>''c''\<close>: after the swap of the two
  pairs the assignment to \<open>second\<close> writes the erased pair's mapped value back.
\<close>

theorem erase_two_children_mapped_value:
  "do { s \<leftarrow> example_map;
        before \<leftarrow> find_map (<) s 8;
        s' \<leftarrow> erase (<) s 5;
        after \<leftarrow> find_map (<) s' 8;
        Some (map_option (\<lambda>n. (left n \<noteq> None, right n \<noteq> None)) (heap s 0),
              deref s before, after, deref s' after, heap s' 2) }
   = Some (Some (True, True), Some (8, ''c''), Some 0, Some (8, ''a''), None)"
  by code_simp

section \<open>Insertion of an equivalent key\<close>

text \<open>
  C3. With the comparator \<open>cmp_abs\<close> the keys \<open>1\<close> and \<open>- 1\<close> are equivalent. A map
  holding key 1 at address 0 is given \<open>insert(- 1, ''b'')\<close>: \<open>findParent\<close> returns the
  node of key 1, the test \<open>==\<close> on the keys fails, and a second node is created as the right
  child of the first; the call returns the new node with \<open>inserted = true\<close> and the size is 2.
\<close>

theorem insert_equivalent_key_creates_node:
  "do { (s, _, _) \<leftarrow> insert_map cmp_abs Map_new 0 (1, ''a'');
        (s', it, inserted) \<leftarrow> insert_map cmp_abs s 1 (- 1, ''b'');
        Some (\<not> cmp_abs 1 (- 1) \<and> \<not> cmp_abs (- 1) 1, it, inserted, size_n s',
              map_option right (heap s' 0)) }
   = Some (True, 1, True, 2, Some (Some 1))"
  by code_simp

section \<open>The level step of the upward walk of erase\<close>


lemma size_sub_0 [simp]: "size_sub l 0 = l"
  by (simp add: size_sub_def)





section \<open>Insertion of a key that is present\<close>

text \<open>
  C10. In a well-formed map that stores the key \<open>k\<close> at node \<open>a\<close>, \<open>insert(k, v)\<close> returns
  \<open>a\<close> with \<open>inserted = false\<close> and the map it was given: the stored mapped value, the
  size, the root, the links, the levels and the cached minimum are all as before, and \<open>v\<close>
  is dropped.
\<close>

theorem insert_present_unchanged:
  fixes s :: "('k, 'v) map_t"
  assumes "map_inv cmp s T" and "strict_order cmp" and "(a, k) \<in> set (aks T)"
  shows "insert_map cmp s new (k, v) = Some (s, a, False)"
proof -
  have f: "findParent cmp s k = Some (Some a)"
    by (rule find_present(2) [OF assms])
  obtain n where "heap s a = Some n" "fst (val n) = k"
    using rep_lookup [of "heap s" None T a k] assms(1,3) by (auto simp: map_inv_def tree_rep_def)
  then show ?thesis using f by (simp add: insert_map_def)
qed

theorem insert_present_unchanged_witness:
  "insert_map (<) single_map 1 (1, ''z'') = Some (single_map, 0, False)"
  using insert_present_unchanged [OF single_map_inv strict_order_int, of 0 1 1 "''z''"]
  by simp

section \<open>Insertion of a new key\<close>

text \<open>
  C6. In a well-formed map, \<open>insert(x, v)\<close> of a key that is equivalent to no stored key
  returns the new node with \<open>inserted = true\<close>; afterwards \<open>find(x)\<close> yields the new node,
  which holds \<open>(x, v)\<close>, and the size is one greater than before.
\<close>

theorem insert_new_key:
  fixes s :: "('k, 'v) map_t"
  assumes "map_inv cmp s T" and "strict_order cmp" and "heap s new = None"
    and "\<forall>k \<in> set (keys T). cmp x k \<or> cmp k x"
  shows "\<exists>s'. insert_map cmp s new (x, v) = Some (s', new, True) \<and>
              find_map cmp s' x = Some (Some new) \<and>
              deref s' (Some new) = Some (x, v) \<and>
              getSize s' = getSize s + 1"
proof -
  obtain s' T' fs where r: "insert_map cmp s new (x, v) = Some (s', new, True)"
    "map_inv cmp s' T'" "T = plug Tip fs" "aks T' = lefts fs @ (new, x) # rights fs"
    "map_option val (heap s' new) = Some (x, v)"
    using insert_new_core [OF assms] by blast
  have "(new, x) \<in> set (aks T')" using r(4) by simp
  then have f: "find_map cmp s' x = Some (Some new)"
    using find_present(1) [OF r(2) assms(2)] by blast
  have "length (aks T') = length (aks T) + 1"
    using r(3,4) by (simp add: aks_plug)
  then have "getSize s' = getSize s + 1"
    using r(2) assms(1) by (simp add: getSize_def map_inv_def addrs_aks)
  then show ?thesis using r(1,5) f by (auto simp: deref_def)
qed

theorem insert_new_key_witness:
  "\<exists>s'. insert_map (<) single_map 1 (2, ''b'') = Some (s', 1, True) \<and>
        find_map (<) s' 2 = Some (Some 1) \<and>
        deref s' (Some 1) = Some (2, ''b'') \<and>
        getSize s' = getSize single_map + 1"
  by (rule insert_new_key [OF single_map_inv strict_order_int])
     (simp_all add: single_map_def)

section \<open>The early exit of the insertion walk\<close>



section \<open>Skew and split on a node of a tree\<close>



end
